theory Spec2Isabelle
  imports Main "HOL-Library.Sublist"
begin

section \<open>Python strings and values\<close>

text \<open>
  A Python \<open>str\<close> is modelled as a \<open>string\<close>: a list of characters, each a code point
  below 256.  \<open>len\<close> is \<open>length\<close>, \<open>s[:n]\<close> is \<open>take n s\<close>, \<open>a + b\<close> is \<open>a @ b\<close>.
\<close>

definition NL :: char where
  "NL = CHR 0x0A"

text \<open>\<open>str(n)\<close> for a non-negative integer, as an f-string renders \<open>len(...)\<close>.\<close>

definition digit_char :: "nat \<Rightarrow> char" where
  "digit_char d = ''0123456789'' ! d"

fun str_of_nat :: "nat \<Rightarrow> string" where
  "str_of_nat n = (if n < 10 then [digit_char n]
                   else str_of_nat (n div 10) @ [digit_char (n mod 10)])"

declare str_of_nat.simps [simp del]

text \<open>\<open>sep.join(xs)\<close>.\<close>

fun join :: "string \<Rightarrow> string list \<Rightarrow> string" where
  "join sep [] = []"
| "join sep [x] = x"
| "join sep (x # y # ys) = x @ sep @ join sep (y # ys)"

text \<open>\<open>sub in s\<close> on strings: \<open>sub\<close> occurs in \<open>s\<close> as a contiguous run.\<close>

fun str_in :: "string \<Rightarrow> string \<Rightarrow> bool" where
  "str_in sub [] = (sub = [])"
| "str_in sub (c # cs) = (prefix sub (c # cs) \<or> str_in sub cs)"

text \<open>
  \<open>str.lower()\<close> on code points below 256: the ASCII capitals and the Latin-1 capitals
  (\<open>0xC0\<close> to \<open>0xDE\<close> without the multiplication sign \<open>0xD7\<close>) move up by 32.
\<close>

definition lower_char :: "char \<Rightarrow> char" where
  "lower_char c =
     (let n = of_char c :: nat in
      if (65 \<le> n \<and> n \<le> 90) \<or> (192 \<le> n \<and> n \<le> 222 \<and> n \<noteq> 215)
      then char_of (n + 32) else c)"

definition lower :: "string \<Rightarrow> string" where
  "lower s = map lower_char s"

text \<open>
  The Python values that a metadata dictionary and an exported record hold.  A float is kept
  as a value of a type parameter: the generator only copies it.  A dictionary is the list of
  its items in the order of insertion.
\<close>

datatype 'f pyval =
    PNone
  | PStr string
  | PInt int
  | PFloat 'f
  | PList "'f pyval list"
  | PDict "(string \<times> 'f pyval) list"

definition opt_str :: "string option \<Rightarrow> 'f pyval" where
  "opt_str x = (case x of None \<Rightarrow> PNone | Some s \<Rightarrow> PStr s)"

text \<open>Truth value of an \<open>Optional[str]\<close>: \<open>None\<close> and the empty string are false.\<close>

definition truthy :: "string option \<Rightarrow> bool" where
  "truthy x = (case x of None \<Rightarrow> False | Some s \<Rightarrow> s \<noteq> [])"

section \<open>Data model (utils.py)\<close>

text \<open>
  A \<open>datetime\<close> is a count of microseconds; \<open>timedelta(seconds=n)\<close> adds \<open>n\<close> million.
  \<open>datetime.isoformat\<close> is a parameter \<open>isoformat\<close> of the generator.
\<close>

type_synonym datetime = int

definition timedelta_seconds :: "int \<Rightarrow> int" where
  "timedelta_seconds n = n * 1000000"

definition timedelta_minutes :: "int \<Rightarrow> int" where
  "timedelta_minutes n = timedelta_seconds (60 * n)"

record Defects4JBug =
  project :: string
  bug_id :: string
  triggering_tests :: "string list"
  bug_report_url :: string
  patch :: string
  modified_classes :: "string list"
  checkout_path :: "string option"

record 'f TestOutput =
  test_name :: string
  status :: string
  error_message :: "string option"
  stack_trace :: "string option"
  execution_time :: 'f
  timestamp :: datetime

record 'f LogEntry =
  timestamp :: string
  level :: string
  source :: string
  message :: string
  metadata :: "(string \<times> 'f pyval) list option"

record 'f SyntheticDebugSession =
  bug_info :: Defects4JBug
  test_outputs :: "'f TestOutput list"
  log_sequence :: "'f LogEntry list"
  investigation_timeline :: "string list"
  root_cause_summary :: string

section \<open>Log synthesis (synthetic\_log\_generator.py)\<close>

definition generate_setup_phase ::
  "(datetime \<Rightarrow> string) \<Rightarrow> datetime \<Rightarrow> Defects4JBug \<Rightarrow> 'f TestOutput list
     \<Rightarrow> 'f LogEntry list \<times> string list" where
  "generate_setup_phase isoformat base_time bug outs =
     (let t = base_time;
          logs = [\<lparr>timestamp = isoformat t, level = ''INFO'', source = ''build'',
                    message = ''Building '' @ project bug @ '' project (bug '' @ bug_id bug @ '')'',
                    metadata = Some [(''project'', PStr (project bug)),
                                     (''bug_id'', PStr (bug_id bug))]\<rparr>];
          steps = [''Started investigating '' @ project bug @ '' bug #'' @ bug_id bug];
          t = t + timedelta_seconds 5;
          logs = logs @ [\<lparr>timestamp = isoformat t, level = ''INFO'', source = ''test_runner'',
                    message = ''Running test suite ('' @ str_of_nat (length outs) @ '' tests)'',
                    metadata = Some [(''test_count'', PInt (int (length outs)))]\<rparr>];
          steps = steps @ [''Executed test suite to reproduce issue'']
      in (logs, steps))"

text \<open>
  One iteration of the loop of \<open>_generate_failure_phase\<close>, on the loop state
  \<open>(t, logs, steps)\<close>.
\<close>

definition failure_step ::
  "(datetime \<Rightarrow> string) \<Rightarrow> 'f TestOutput
     \<Rightarrow> datetime \<times> 'f LogEntry list \<times> string list
     \<Rightarrow> datetime \<times> 'f LogEntry list \<times> string list" where
  "failure_step isoformat out st =
     (case st of (t, logs, steps) \<Rightarrow>
        if status out = ''FAIL'' then
          (let t = t + timedelta_seconds 2;
               logs = logs @ [\<lparr>timestamp = isoformat t, level = ''ERROR'', source = ''test'',
                         message = ''Test failed: '' @ test_name out,
                         metadata = Some [(''test_name'', PStr (test_name out)),
                                          (''error'', opt_str (error_message out)),
                                          (''execution_time'', PFloat (execution_time out))]\<rparr>];
               (t, logs) =
                 (if truthy (stack_trace out) then
                    (let t = t + timedelta_seconds 1 in
                     (t, logs @ [\<lparr>timestamp = isoformat t, level = ''ERROR'', source = ''test'',
                           message = ''Stack trace for '' @ test_name out,
                           metadata = Some [(''stack_trace'',
                                             PStr (take 500 (the (stack_trace out))))]\<rparr>]))
                  else (t, logs));
               steps = steps @ [''Identified failing test: '' @ test_name out]
           in (t, logs, steps))
        else (t, logs, steps))"

definition generate_failure_phase ::
  "(datetime \<Rightarrow> string) \<Rightarrow> datetime \<Rightarrow> Defects4JBug \<Rightarrow> 'f TestOutput list
     \<Rightarrow> 'f LogEntry list \<times> string list" where
  "generate_failure_phase isoformat base_time bug outs =
     (case fold (failure_step isoformat) outs (base_time + timedelta_seconds 10, [], []) of
        (t, logs, steps) \<Rightarrow> (logs, steps))"

definition investigation_step ::
  "(datetime \<Rightarrow> string) \<Rightarrow> string
     \<Rightarrow> datetime \<times> 'f LogEntry list \<times> string list
     \<Rightarrow> datetime \<times> 'f LogEntry list \<times> string list" where
  "investigation_step isoformat class_name st =
     (case st of (t, logs, steps) \<Rightarrow>
        (let t = t + timedelta_seconds 10;
             logs = logs @ [\<lparr>timestamp = isoformat t, level = ''DEBUG'', source = ''debugger'',
                       message = ''Examining class: '' @ class_name,
                       metadata = Some [(''class'', PStr class_name),
                                        (''methods_checked'',
                                         PList [PStr ''method1'', PStr ''method2''])]\<rparr>];
             steps = steps @ [''Analyzed '' @ class_name]
         in (t, logs, steps)))"

definition generate_investigation_phase ::
  "(datetime \<Rightarrow> string) \<Rightarrow> datetime \<Rightarrow> Defects4JBug
     \<Rightarrow> 'f LogEntry list \<times> string list" where
  "generate_investigation_phase isoformat base_time bug =
     (let t = base_time + timedelta_minutes 1;
          logs = [\<lparr>timestamp = isoformat t, level = ''DEBUG'', source = ''debugger'',
                    message = ''Starting code investigation'',
                    metadata = Some [(''modified_classes'',
                                      PList (map PStr (modified_classes bug)))]\<rparr>];
          steps = [''Began examining modified classes'']
      in case fold (investigation_step isoformat) (take 3 (modified_classes bug)) (t, logs, steps) of
           (t, logs, steps) \<Rightarrow> (logs, steps))"

definition infer_root_cause_from_patch :: "string \<Rightarrow> string" where
  "infer_root_cause_from_patch p =
     (if p = [] then ''Logic error in implementation''
      else if str_in ''null'' (lower p) then ''Null pointer handling issue''
      else if str_in ''bound'' (lower p) \<or> str_in ''index'' (lower p)
        then ''Array bounds or indexing error''
      else if str_in ''assert'' (lower p) then ''Assertion or validation error''
      else if str_in ''=='' p \<or> str_in ''!='' p then ''Comparison or equality check error''
      else ''Logic error in implementation'')"

definition generate_discovery_phase ::
  "(datetime \<Rightarrow> string) \<Rightarrow> datetime \<Rightarrow> Defects4JBug
     \<Rightarrow> 'f LogEntry list \<times> string list" where
  "generate_discovery_phase isoformat base_time bug =
     (let t = base_time + timedelta_minutes 2;
          root_cause_hint = infer_root_cause_from_patch (patch bug);
          logs = [\<lparr>timestamp = isoformat t, level = ''INFO'', source = ''debugger'',
                    message = ''Root cause identified: '' @ root_cause_hint,
                    metadata = Some [(''bug_url'', PStr (bug_report_url bug))]\<rparr>];
          steps = [''Discovered root cause: '' @ root_cause_hint];
          t = t + timedelta_seconds 5;
          logs = logs @ [\<lparr>timestamp = isoformat t, level = ''DEBUG'', source = ''debugger'',
                    message = ''Analyzing patch differences'',
                    metadata = Some [(''modified_files'',
                                      PInt (int (length (modified_classes bug))))]\<rparr>];
          steps = steps @ [''Reviewed patch to understand fix'']
      in (logs, steps))"

definition generate_resolution_phase ::
  "(datetime \<Rightarrow> string) \<Rightarrow> datetime \<Rightarrow> Defects4JBug
     \<Rightarrow> 'f LogEntry list \<times> string list" where
  "generate_resolution_phase isoformat base_time bug =
     (let t = base_time + timedelta_minutes 3;
          logs = [\<lparr>timestamp = isoformat t, level = ''INFO'', source = ''vcs'',
                    message = ''Applying patch to fix bug'',
                    metadata = Some [(''bug_id'', PStr (bug_id bug))]\<rparr>];
          steps = [''Applied patch from fixed version''];
          t = t + timedelta_seconds 10;
          logs = logs @ [\<lparr>timestamp = isoformat t, level = ''INFO'', source = ''test_runner'',
                    message = ''Re-running tests after fix'',
                    metadata = Some [(''expected_result'', PStr ''PASS'')]\<rparr>];
          steps = steps @ [''Verified fix by re-running tests''];
          t = t + timedelta_seconds 5;
          logs = logs @ [\<lparr>timestamp = isoformat t, level = ''INFO'', source = ''test'',
                    message = ''All tests passing after fix'',
                    metadata = Some [(''status'', PStr ''SUCCESS'')]\<rparr>];
          steps = steps @ [''Confirmed all tests now pass'']
      in (logs, steps))"

definition generate_root_cause_summary ::
  "Defects4JBug \<Rightarrow> 'f TestOutput list \<Rightarrow> string" where
  "generate_root_cause_summary bug outs =
     (let failed_tests = filter (\<lambda>t. status t = ''FAIL'') outs;
          summary = ''Bug in '' @ project bug @ '' (#'' @ bug_id bug @ ''): '';
          summary = summary @ str_of_nat (length failed_tests) @ '' test(s) failed. '';
          summary = summary @ ''Root cause located in ''
                      @ join '', '' (take 2 (modified_classes bug)) @ ''. ''
      in if failed_tests \<noteq> [] \<and> truthy (error_message (hd failed_tests))
         then summary @ ''Error: '' @ take 100 (the (error_message (hd failed_tests))) @ ''...''
         else summary)"

definition generate_debug_session ::
  "(datetime \<Rightarrow> string) \<Rightarrow> datetime \<Rightarrow> Defects4JBug \<Rightarrow> 'f TestOutput list
     \<Rightarrow> 'f SyntheticDebugSession" where
  "generate_debug_session isoformat base_time bug outs =
     (let (phase1_logs, phase1_steps) = generate_setup_phase isoformat base_time bug outs;
          log_sequence = [] @ phase1_logs;
          investigation_timeline = [] @ phase1_steps;
          (phase2_logs, phase2_steps) = generate_failure_phase isoformat base_time bug outs;
          log_sequence = log_sequence @ phase2_logs;
          investigation_timeline = investigation_timeline @ phase2_steps;
          (phase3_logs, phase3_steps) = generate_investigation_phase isoformat base_time bug;
          log_sequence = log_sequence @ phase3_logs;
          investigation_timeline = investigation_timeline @ phase3_steps;
          (phase4_logs, phase4_steps) = generate_discovery_phase isoformat base_time bug;
          log_sequence = log_sequence @ phase4_logs;
          investigation_timeline = investigation_timeline @ phase4_steps;
          (phase5_logs, phase5_steps) = generate_resolution_phase isoformat base_time bug;
          log_sequence = log_sequence @ phase5_logs;
          investigation_timeline = investigation_timeline @ phase5_steps;
          root_cause = generate_root_cause_summary bug outs
      in \<lparr>bug_info = bug, test_outputs = outs, log_sequence = log_sequence,
          investigation_timeline = investigation_timeline,
          root_cause_summary = root_cause\<rparr>)"

section \<open>The regular expressions of Python's \<open>re\<close> that the parsers use\<close>

text \<open>
  \<open>str.isspace\<close> and the class \<open>\s\<close> of a \<open>str\<close> pattern, on code points below 256:
  \<open>0x09\<close> to \<open>0x0D\<close>, \<open>0x1C\<close> to \<open>0x20\<close>, \<open>0x85\<close> and \<open>0xA0\<close>.
\<close>

definition is_space :: "char \<Rightarrow> bool" where
  "is_space c \<longleftrightarrow>
     (let n = of_char c :: nat in (9 \<le> n \<and> n \<le> 13) \<or> (28 \<le> n \<and> n \<le> 32) \<or> n = 133 \<or> n = 160)"

text \<open>The class \<open>[ \t]\<close>.\<close>

definition is_blank :: "char \<Rightarrow> bool" where
  "is_blank c \<longleftrightarrow> c = CHR '' '' \<or> c = CHR 0x09"

text \<open>The dot: any character but the line feed.\<close>

definition not_nl :: "char \<Rightarrow> bool" where
  "not_nl c \<longleftrightarrow> c \<noteq> NL"

text \<open>
  The fragment of the pattern language in use: a literal string, a character class, a sequence,
  the alternative, the greedy star, the greedy option, the capturing group (at most one),
  the anchors \<open>^\<close> and \<open>$\<close> in \<open>MULTILINE\<close> mode, and the negative lookahead of a literal.
\<close>

datatype re =
    Lit string
  | Cls "char \<Rightarrow> bool"
  | Seq re re
  | Alt re re
  | Star re
  | Opt re
  | Grp re
  | Bol
  | Eol
  | NotAhead string

text \<open>\<open>r+\<close> is \<open>rr*\<close>.\<close>

definition Plus :: "re \<Rightarrow> re" where
  "Plus r = Seq r (Star r)"

text \<open>
  The state of a match attempt: whether the position is at the beginning of a line (the start
  of the string, or just after a line feed), the text still to read, and what group 1 holds.
\<close>

type_synonym mstate = "bool \<times> string \<times> string option"

text \<open>
  The backtracking matcher, with the rest of the pattern as a continuation \<open>k\<close>: the first
  alternative that lets the continuation succeed wins, the greedy operators trying the longer
  match first.  An iteration of a star has to consume a character (the engine of \<open>re\<close> stops a
  loop whose body matched the empty string; no star of this program has such a body).
\<close>

fun rmatch :: "re \<Rightarrow> (mstate \<Rightarrow> 'a option) \<Rightarrow> mstate \<Rightarrow> 'a option" where
  "rmatch (Lit w) k (b, s, c) =
     (if prefix w s then k (if w = [] then b else last w = NL, drop (length w) s, c) else None)"
| "rmatch (Cls P) k (b, s, c) =
     (case s of [] \<Rightarrow> None | x # xs \<Rightarrow> if P x then k (x = NL, xs, c) else None)"
| "rmatch (Seq r1 r2) k st = rmatch r1 (\<lambda>st'. rmatch r2 k st') st"
| "rmatch (Alt r1 r2) k st = (case rmatch r1 k st of Some x \<Rightarrow> Some x | None \<Rightarrow> rmatch r2 k st)"
| "rmatch (Star r) k (b, s, c) =
     (case rmatch r (\<lambda>(b', s', c').
                       if length s' < length s then rmatch (Star r) k (b', s', c') else None)
             (b, s, c) of
        Some x \<Rightarrow> Some x
      | None \<Rightarrow> k (b, s, c))"
| "rmatch (Opt r) k st = (case rmatch r k st of Some x \<Rightarrow> Some x | None \<Rightarrow> k st)"
| "rmatch (Grp r) k (b, s, c) =
     rmatch r (\<lambda>(b', s', c'). k (b', s', Some (take (length s - length s') s))) (b, s, c)"
| "rmatch Bol k (b, s, c) = (if b then k (b, s, c) else None)"
| "rmatch Eol k (b, s, c) = (if s = [] \<or> hd s = NL then k (b, s, c) else None)"
| "rmatch (NotAhead w) k (b, s, c) = (if prefix w s then None else k (b, s, c))"

text \<open>
  A match of the whole pattern at the current position: the state after it.
\<close>

definition match_here :: "re \<Rightarrow> bool \<Rightarrow> string \<Rightarrow> mstate option" where
  "match_here r b s = rmatch r Some (b, s, None)"

text \<open>
  \<open>re.search\<close>: the match at the leftmost position that has one.  The result is the start
  index of the match and the state after it; \<open>b\<close> tells whether the text starts a line.
\<close>

fun search_from :: "re \<Rightarrow> bool \<Rightarrow> nat \<Rightarrow> string \<Rightarrow> (nat \<times> mstate) option" where
  "search_from r b i [] =
     (case match_here r b [] of Some st \<Rightarrow> Some (i, st) | None \<Rightarrow> None)"
| "search_from r b i (x # xs) =
     (case match_here r b (x # xs) of
        Some st \<Rightarrow> Some (i, st)
      | None \<Rightarrow> search_from r (x = NL) (Suc i) xs)"

definition search :: "re \<Rightarrow> string \<Rightarrow> (nat \<times> mstate) option" where
  "search r s = search_from r True 0 s"

text \<open>
  \<open>re.findall\<close> for a pattern with one group: group 1 of the successive matches, each search
  starting where the last match ended.  (After an empty match the model moves on by one
  character; no pattern of this program matches the empty string.)  The result of
  \<open>search_from\<close> at index \<open>i\<close> leaves a suffix of \<open>drop i s\<close>, shorter unless the match is empty.
\<close>

function findall_from :: "re \<Rightarrow> bool \<Rightarrow> string \<Rightarrow> string list" where
  "findall_from r b s =
     (case search_from r b 0 s of
        None \<Rightarrow> []
      | Some (i, b', s', c) \<Rightarrow>
          (case c of None \<Rightarrow> [] | Some g \<Rightarrow> g)
          # (if length s' < length s - i then findall_from r b' s'
             else (case drop i s of [] \<Rightarrow> [] | x # xs \<Rightarrow> findall_from r (x = NL) xs)))"
  by pat_completeness auto
termination
proof (relation "measure (\<lambda>(r, b, s). length s)")
  show "wf (measure (\<lambda>(r :: re, b :: bool, s :: string). length s))"
    by simp
next
  fix r :: re and b b' :: bool and s s' :: string and i :: nat
  assume "length s' < length s - i"
  then show "((r, b', s'), (r, b, s)) \<in> measure (\<lambda>(r, b, s). length s)"
    by simp
next
  fix r :: re and b :: bool and s xs :: string and i :: nat and x :: char
  assume "drop i s = x # xs"
  then have "length (drop i s) = Suc (length xs)"
    by simp
  then show "((r, x = NL, xs), (r, b, s)) \<in> measure (\<lambda>(r, b, s). length s)"
    by simp
qed

declare findall_from.simps [simp del]

definition findall :: "re \<Rightarrow> string \<Rightarrow> string list" where
  "findall r s = findall_from r True s"

text \<open>\<open>s.lstrip(chars)\<close>, \<open>s.rstrip()\<close> and \<open>s.strip()\<close>.\<close>

definition lstrip_chars :: "string \<Rightarrow> string \<Rightarrow> string" where
  "lstrip_chars chars s = dropWhile (\<lambda>c. c \<in> set chars) s"

definition rstrip :: "string \<Rightarrow> string" where
  "rstrip s = rev (dropWhile is_space (rev s))"

definition strip :: "string \<Rightarrow> string" where
  "strip s = dropWhile is_space (rstrip s)"

text \<open>\<open>s.replace(old, new)\<close> for a non-empty \<open>old\<close>, and \<open>s.split(sep)[0]\<close>.\<close>

fun replace :: "string \<Rightarrow> string \<Rightarrow> string \<Rightarrow> string" where
  "replace old new [] = []"
| "replace old new (x # xs) =
     (if old \<noteq> [] \<and> prefix old (x # xs)
      then new @ replace old new (drop (length old) (x # xs))
      else x # replace old new xs)"

fun split_first :: "string \<Rightarrow> string \<Rightarrow> string" where
  "split_first sep [] = []"
| "split_first sep (x # xs) = (if prefix sep (x # xs) then [] else x # split_first sep xs)"


section \<open>Parsing the tool's output (defects\_manager.py, mining\_buggy\_code\_logs.py)\<close>

text \<open>A pattern written as the sequence of its parts.\<close>

fun cat :: "re list \<Rightarrow> re" where
  "cat [] = Lit []"
| "cat [r] = r"
| "cat (r # rs) = Seq r (cat rs)"

text \<open>
  The values of the dictionary that \<open>_parse_bug_info\<close> returns: a string, a list of strings,
  or \<open>None\<close> (what \<open>group(1)\<close> returns for a group that took no part in the match).
\<close>

datatype info_value = IStr string | IList "string list" | INone

datatype py_error = AttributeError

text \<open>\<^verbatim>\<open>r"Root cause in triggering tests:\s*\n((?:^[ \t].*\n)+)"\<close> and the like, \<open>MULTILINE\<close>.\<close>

definition block_re :: "string \<Rightarrow> re" where
  "block_re header =
     cat [Lit header, Star (Cls is_space), Lit [NL],
          Grp (Plus (cat [Bol, Cls is_blank, Star (Cls not_nl), Lit [NL]]))]"

text \<open>\<^verbatim>\<open>r"^\s*-\s+(?!->)(.+)$"\<close>, \<open>MULTILINE\<close> (defects\_manager.py).\<close>

definition test_item_re :: re where
  "test_item_re =
     cat [Bol, Star (Cls is_space), Lit ''-'', Plus (Cls is_space), NotAhead ''->'',
          Grp (Plus (Cls not_nl)), Eol]"

text \<open>
  \<^verbatim>\<open>r"^\s*-\s*(.+)$"\<close>, \<open>MULTILINE\<close>: the modified sources in both files, and the
  triggering tests in mining\_buggy\_code\_logs.py.
\<close>

definition item_re :: re where
  "item_re =
     cat [Bol, Star (Cls is_space), Lit ''-'', Star (Cls is_space),
          Grp (Plus (Cls not_nl)), Eol]"

text \<open>\<^verbatim>\<open>r"Bug report url:\s*(.+)"\<close>.\<close>

definition url_re :: re where
  "url_re = cat [Lit ''Bug report url:'', Star (Cls is_space), Grp (Plus (Cls not_nl))]"

text \<open>
  \<open>_parse_bug_info\<close>, with the pattern for the lines of the triggering tests as a parameter,
  since the two files differ in it only.  The calls of \<open>print\<close> are left out, but for the
  \<open>rstrip\<close> that the first of them applies to \<open>group(1)\<close>, which raises on \<open>None\<close>.  The
  dictionary keeps the order of insertion.
\<close>

definition parse_bug_info_with :: "re \<Rightarrow> string \<Rightarrow> py_error + (string \<times> info_value) list" where
  "parse_bug_info_with tests_re info_output =
     (let tests_match = search (block_re ''Root cause in triggering tests:'') info_output;
          tests =
            (case tests_match of
               None \<Rightarrow> Inr []
             | Some (i, b, s, g) \<Rightarrow>
                 (case g of None \<Rightarrow> Inl AttributeError | Some block \<Rightarrow> Inr (findall tests_re block)));
          url_match = search url_re info_output;
          url = (case url_match of
                   None \<Rightarrow> IStr []
                 | Some (i, b, s, g) \<Rightarrow> (case g of None \<Rightarrow> INone | Some u \<Rightarrow> IStr u));
          sources_match = search (block_re ''List of modified sources:'') info_output;
          sources =
            (case sources_match of
               None \<Rightarrow> Inr []
             | Some (i, b, s, g) \<Rightarrow>
                 (case g of None \<Rightarrow> Inl AttributeError | Some block \<Rightarrow> Inr (findall item_re block)))
      in case tests of
           Inl e \<Rightarrow> Inl e
         | Inr ts \<Rightarrow>
             (case sources of
                Inl e \<Rightarrow> Inl e
              | Inr srcs \<Rightarrow>
                  Inr [(''triggering_tests'', IList ts), (''bug_report_url'', url),
                       (''modified_classes'', IList srcs), (''patch'', IStr [])]))"

text \<open>\<open>_parse_bug_info\<close> of defects\_manager.py.\<close>

definition parse_bug_info :: "string \<Rightarrow> py_error + (string \<times> info_value) list" where
  "parse_bug_info = parse_bug_info_with test_item_re"

text \<open>\<open>_parse_bug_info\<close> of mining\_buggy\_code\_logs.py.\<close>

definition parse_bug_info_mining :: "string \<Rightarrow> py_error + (string \<times> info_value) list" where
  "parse_bug_info_mining = parse_bug_info_with item_re"

text \<open>\<^verbatim>\<open>rf"(?m)^---\s*{re.escape(variant)}(?:\s+(.*))?$"\<close> and \<^verbatim>\<open>r"(?m)^---\s"\<close>.\<close>

definition header_re :: "string \<Rightarrow> re" where
  "header_re variant =
     cat [Bol, Lit ''---'', Star (Cls is_space), Lit variant,
          Opt (Seq (Plus (Cls is_space)) (Grp (Star (Cls not_nl)))), Eol]"

definition next_header_re :: re where
  "next_header_re = cat [Bol, Lit ''---'', Cls is_space]"

definition test_name_variants :: "string \<Rightarrow> string list" where
  "test_name_variants name =
     [name,
      replace ''::'' ''.'' name,
      if str_in ''::'' name then split_first ''::'' name else name]"

text \<open>
  The loop of \<open>_extract_error_from_failing_tests\<close> over the variants.  After a match,
  \<open>rest\<close> is \<open>content[start_pos:]\<close>, and the next header is searched in it.
\<close>

fun extract_with_variants :: "string \<Rightarrow> string list \<Rightarrow> string option" where
  "extract_with_variants content [] = None"
| "extract_with_variants content (variant # variants) =
     (case search (header_re variant) content of
        None \<Rightarrow> extract_with_variants content variants
      | Some (i, b, rest, g) \<Rightarrow>
          (let header_extra = (case g of None \<Rightarrow> [] | Some e \<Rightarrow> e);
               end_pos = (case search next_header_re rest of
                            Some (j, st) \<Rightarrow> j
                          | None \<Rightarrow> length rest);
               rest_block = rstrip (lstrip_chars [CHR 0x0D, NL] (take end_pos rest));
               error_section = (if header_extra \<noteq> []
                                then rstrip header_extra @ [NL] @ rest_block
                                else rest_block)
           in if strip error_section \<noteq> [] then Some error_section
              else extract_with_variants content variants))"

definition extract_error_from_failing_tests :: "string \<Rightarrow> string \<Rightarrow> string option" where
  "extract_error_from_failing_tests content name =
     extract_with_variants content (test_name_variants name)"


section \<open>Export to JSON lines (dataset\_exporter.py)\<close>

subsection \<open>\<open>json.dumps\<close>\<close>

text \<open>
  \<open>json.dumps\<close> with its default settings (\<open>ensure_ascii\<close>, the separators \<open>', '\<close> and
  \<open>': '\<close>) on the values above.  The quotation mark is \<open>0x22\<close> and the backslash \<open>0x5C\<close>.
  A character outside the range from the space to the tilde is written \<open>\u00XX\<close>, unless it
  has a short escape.
\<close>

definition hex_digit :: "nat \<Rightarrow> char" where
  "hex_digit d = ''0123456789abcdef'' ! d"

definition escape_char :: "char \<Rightarrow> string" where
  "escape_char c =
     (if c = CHR 0x22 then [CHR 0x5C, CHR 0x22]
      else if c = CHR 0x5C then [CHR 0x5C, CHR 0x5C]
      else if c = NL then [CHR 0x5C, CHR ''n'']
      else if c = CHR 0x0D then [CHR 0x5C, CHR ''r'']
      else if c = CHR 0x09 then [CHR 0x5C, CHR ''t'']
      else if c = CHR 0x08 then [CHR 0x5C, CHR ''b'']
      else if c = CHR 0x0C then [CHR 0x5C, CHR ''f'']
      else (let n = of_char c :: nat in
            if 32 \<le> n \<and> n \<le> 126 then [c]
            else [CHR 0x5C, CHR ''u'', CHR ''0'', CHR ''0'',
                  hex_digit (n div 16), hex_digit (n mod 16)]))"

definition dumps_str :: "string \<Rightarrow> string" where
  "dumps_str s = CHR 0x22 # concat (map escape_char s) @ [CHR 0x22]"

definition str_of_int :: "int \<Rightarrow> string" where
  "str_of_int i = (if i < 0 then CHR ''-'' # str_of_nat (nat (- i)) else str_of_nat (nat i))"

text \<open>
  The text of a float (\<open>float.__repr__\<close>, or \<open>NaN\<close>, \<open>Infinity\<close>, \<open>-Infinity\<close>) is the
  parameter \<open>float_repr\<close>.
\<close>

fun dumps :: "('f \<Rightarrow> string) \<Rightarrow> 'f pyval \<Rightarrow> string"
  and dumps_elems :: "('f \<Rightarrow> string) \<Rightarrow> 'f pyval list \<Rightarrow> string"
  and dumps_items :: "('f \<Rightarrow> string) \<Rightarrow> (string \<times> 'f pyval) list \<Rightarrow> string" where
  "dumps float_repr PNone = ''null''"
| "dumps float_repr (PStr s) = dumps_str s"
| "dumps float_repr (PInt i) = str_of_int i"
| "dumps float_repr (PFloat f) = float_repr f"
| "dumps float_repr (PList xs) = ''['' @ dumps_elems float_repr xs @ '']''"
| "dumps float_repr (PDict kvs) = ''{'' @ dumps_items float_repr kvs @ ''}''"
| "dumps_elems float_repr [] = []"
| "dumps_elems float_repr [x] = dumps float_repr x"
| "dumps_elems float_repr (x # y # ys) =
     dumps float_repr x @ '', '' @ dumps_elems float_repr (y # ys)"
| "dumps_items float_repr [] = []"
| "dumps_items float_repr [(k, v)] = dumps_str k @ '': '' @ dumps float_repr v"
| "dumps_items float_repr ((k, v) # kv # kvs) =
     dumps_str k @ '': '' @ dumps float_repr v @ '', '' @ dumps_items float_repr (kv # kvs)"

subsection \<open>\<open>export_to_jsonl\<close>\<close>

text \<open>\<open>asdict(log)\<close>.\<close>

definition asdict_log :: "'f LogEntry \<Rightarrow> 'f pyval" where
  "asdict_log e =
     PDict [(''timestamp'', PStr (timestamp e)), (''level'', PStr (level e)),
            (''source'', PStr (source e)), (''message'', PStr (message e)),
            (''metadata'', (case metadata e of None \<Rightarrow> PNone | Some kvs \<Rightarrow> PDict kvs))]"

definition jsonl_entry :: "'f SyntheticDebugSession \<Rightarrow> 'f pyval" where
  "jsonl_entry session =
     PDict [(''bug_id'', PStr (project (bug_info session) @ ''_'' @ bug_id (bug_info session))),
            (''project'', PStr (project (bug_info session))),
            (''logs'', PList (map asdict_log (log_sequence session))),
            (''timeline'', PList (map PStr (investigation_timeline session))),
            (''root_cause'', PStr (root_cause_summary session))]"

text \<open>
  The loop of \<open>export_to_jsonl\<close> on the content of the file, which starts empty: each
  session writes its record and a line feed.
\<close>

definition export_to_jsonl :: "('f \<Rightarrow> string) \<Rightarrow> 'f SyntheticDebugSession list \<Rightarrow> string" where
  "export_to_jsonl float_repr sessions =
     fold (\<lambda>session f. f @ dumps float_repr (jsonl_entry session) @ [NL]) sessions []"

subsection \<open>Reading the file back: \<open>json.loads\<close> on each line\<close>

text \<open>
  What \<open>json.loads\<close> builds, with a number kept as its lexeme.
\<close>

datatype jval =
    JNull
  | JBool bool
  | JStr string
  | JNum string
  | JList "jval list"
  | JDict "(string \<times> jval) list"

definition is_json_ws :: "char \<Rightarrow> bool" where
  "is_json_ws c \<longleftrightarrow> c = CHR '' '' \<or> c = CHR 0x09 \<or> c = NL \<or> c = CHR 0x0D"

definition skip_ws :: "string \<Rightarrow> string" where
  "skip_ws s = dropWhile is_json_ws s"

definition is_digit :: "char \<Rightarrow> bool" where
  "is_digit c \<longleftrightarrow> c \<in> set ''0123456789''"

definition is_digit19 :: "char \<Rightarrow> bool" where
  "is_digit19 c \<longleftrightarrow> c \<in> set ''123456789''"

text \<open>\<^verbatim>\<open>(-?(?:0|[1-9][0-9]*))(\.[0-9]+)?([eE][-+]?[0-9]+)?\<close>, the groups left out.\<close>

definition number_re :: re where
  "number_re =
     cat [Opt (Lit ''-''),
          Alt (Lit ''0'') (Seq (Cls is_digit19) (Star (Cls is_digit))),
          Opt (Seq (Lit ''.'') (Plus (Cls is_digit))),
          Opt (cat [Cls (\<lambda>c. c \<in> set ''eE''), Opt (Cls (\<lambda>c. c \<in> set ''-+'')),
                    Plus (Cls is_digit)])]"

text \<open>The number at the head of \<open>s\<close>, or one of the three constants, with the rest.\<close>

definition scan_number :: "string \<Rightarrow> (string \<times> string) option" where
  "scan_number s =
     (case match_here number_re True s of
        Some (b, rest, g) \<Rightarrow> Some (take (length s - length rest) s, rest)
      | None \<Rightarrow>
          if prefix ''NaN'' s then Some (''NaN'', drop 3 s)
          else if prefix ''Infinity'' s then Some (''Infinity'', drop 8 s)
          else if prefix ''-Infinity'' s then Some (''-Infinity'', drop 9 s)
          else None)"

definition unhex :: "char \<Rightarrow> nat option" where
  "unhex c =
     (let n = of_char c :: nat in
      if 48 \<le> n \<and> n \<le> 57 then Some (n - 48)
      else if 97 \<le> n \<and> n \<le> 102 then Some (n - 87)
      else if 65 \<le> n \<and> n \<le> 70 then Some (n - 55)
      else None)"

definition unescape :: "char \<Rightarrow> char option" where
  "unescape e =
     (if e = CHR 0x22 \<or> e = CHR 0x5C \<or> e = CHR ''/'' then Some e
      else if e = CHR ''b'' then Some (CHR 0x08)
      else if e = CHR ''f'' then Some (CHR 0x0C)
      else if e = CHR ''n'' then Some NL
      else if e = CHR ''r'' then Some (CHR 0x0D)
      else if e = CHR ''t'' then Some (CHR 0x09)
      else None)"

text \<open>
  The string after its opening quotation mark, up to the closing one, decoded; a raw control
  character is refused, and so is a \<open>\uXXXX\<close> beyond the code points of the model.
\<close>

fun scan_string :: "string \<Rightarrow> (string \<times> string) option" where
  "scan_string [] = None"
| "scan_string (c # cs) =
     (if c = CHR 0x22 then Some ([], cs)
      else if c = CHR 0x5C then
        (case cs of
           [] \<Rightarrow> None
         | e # cs' \<Rightarrow>
             if e = CHR ''u'' then
               (case cs' of
                  h1 # h2 # h3 # h4 # cs'' \<Rightarrow>
                    (case (unhex h1, unhex h2, unhex h3, unhex h4) of
                       (Some a, Some b, Some c, Some d) \<Rightarrow>
                         (if a = 0 \<and> b = 0 then
                            (case scan_string cs'' of
                               Some (r, rest) \<Rightarrow> Some (char_of (16 * c + d) # r, rest)
                             | None \<Rightarrow> None)
                          else None)
                     | _ \<Rightarrow> None)
                | _ \<Rightarrow> None)
             else
               (case unescape e of
                  None \<Rightarrow> None
                | Some ch \<Rightarrow>
                    (case scan_string cs' of
                       Some (r, rest) \<Rightarrow> Some (ch # r, rest)
                     | None \<Rightarrow> None)))
      else if (of_char c :: nat) < 32 then None
      else (case scan_string cs of Some (r, rest) \<Rightarrow> Some (c # r, rest) | None \<Rightarrow> None))"

text \<open>
  The scanner of values, arrays and objects.  The first argument bounds the depth of the
  recursion; \<open>loads\<close> gives it more than the length of the text.
\<close>

fun scan_value :: "nat \<Rightarrow> string \<Rightarrow> (jval \<times> string) option"
  and scan_elems :: "nat \<Rightarrow> string \<Rightarrow> (jval list \<times> string) option"
  and scan_items :: "nat \<Rightarrow> string \<Rightarrow> ((string \<times> jval) list \<times> string) option" where
  "scan_value 0 s = None"
| "scan_value (Suc n) [] = None"
| "scan_value (Suc n) (c # cs) =
     (if c = CHR 0x22 then
        (case scan_string cs of Some (x, rest) \<Rightarrow> Some (JStr x, rest) | None \<Rightarrow> None)
      else if c = CHR ''{'' then
        (case skip_ws cs of
           [] \<Rightarrow> None
         | d # ds \<Rightarrow>
             if d = CHR ''}'' then Some (JDict [], ds)
             else (case scan_items n (d # ds) of
                     Some (kvs, rest) \<Rightarrow> Some (JDict kvs, rest)
                   | None \<Rightarrow> None))
      else if c = CHR ''['' then
        (case skip_ws cs of
           [] \<Rightarrow> None
         | d # ds \<Rightarrow>
             if d = CHR '']'' then Some (JList [], ds)
             else (case scan_elems n (d # ds) of
                     Some (xs, rest) \<Rightarrow> Some (JList xs, rest)
                   | None \<Rightarrow> None))
      else if prefix ''null'' (c # cs) then Some (JNull, drop 4 (c # cs))
      else if prefix ''true'' (c # cs) then Some (JBool True, drop 4 (c # cs))
      else if prefix ''false'' (c # cs) then Some (JBool False, drop 5 (c # cs))
      else (case scan_number (c # cs) of
              Some (tok, rest) \<Rightarrow> Some (JNum tok, rest)
            | None \<Rightarrow> None))"
| "scan_elems 0 s = None"
| "scan_elems (Suc n) s =
     (case scan_value n s of
        None \<Rightarrow> None
      | Some (x, rest) \<Rightarrow>
          (case skip_ws rest of
             [] \<Rightarrow> None
           | d # ds \<Rightarrow>
               if d = CHR '']'' then Some ([x], ds)
               else if d = CHR '','' then
                 (case scan_elems n (skip_ws ds) of
                    Some (xs, rest') \<Rightarrow> Some (x # xs, rest')
                  | None \<Rightarrow> None)
               else None))"
| "scan_items 0 s = None"
| "scan_items (Suc n) s =
     (case s of
        [] \<Rightarrow> None
      | q # s1 \<Rightarrow>
          if q \<noteq> CHR 0x22 then None
          else
            (case scan_string s1 of
               None \<Rightarrow> None
             | Some (key, s2) \<Rightarrow>
                 (case skip_ws s2 of
                    [] \<Rightarrow> None
                  | colon # s3 \<Rightarrow>
                      if colon \<noteq> CHR '':'' then None
                      else
                        (case scan_value n (skip_ws s3) of
                           None \<Rightarrow> None
                         | Some (v, s4) \<Rightarrow>
                             (case skip_ws s4 of
                                [] \<Rightarrow> None
                              | d # ds \<Rightarrow>
                                  if d = CHR ''}'' then Some ([(key, v)], ds)
                                  else if d = CHR '','' then
                                    (case scan_items n (skip_ws ds) of
                                       Some (kvs, rest) \<Rightarrow> Some ((key, v) # kvs, rest)
                                     | None \<Rightarrow> None)
                                  else None)))))"

text \<open>\<open>json.loads\<close>: one value, white space around it, and nothing else.\<close>

definition loads :: "string \<Rightarrow> jval option" where
  "loads s =
     (case scan_value (Suc (length s)) (skip_ws s) of
        None \<Rightarrow> None
      | Some (v, rest) \<Rightarrow> if skip_ws rest = [] then Some v else None)"

text \<open>
  The lines of a text file, as iterating over the file yields them, each without its line feed;
  a last line without a line feed counts.
\<close>

fun file_lines :: "string \<Rightarrow> string list" where
  "file_lines [] = []"
| "file_lines (c # cs) =
     (if c = NL then [] # file_lines cs
      else (case file_lines cs of [] \<Rightarrow> [[c]] | l # ls \<Rightarrow> (c # l) # ls))"

definition read_jsonl :: "string \<Rightarrow> jval option list" where
  "read_jsonl content = map loads (file_lines content)"


section \<open>Auxiliary notions for the statements and proofs\<close>

text \<open>A keyword occurs in a text, exactly or up to the case of letters.\<close>

definition occurs :: "string \<Rightarrow> string \<Rightarrow> bool" where
  "occurs kw p \<longleftrightarrow> (\<exists>pre post. p = pre @ kw @ post)"

definition occurs_ignoring_case :: "string \<Rightarrow> string \<Rightarrow> bool" where
  "occurs_ignoring_case kw p \<longleftrightarrow> (\<exists>pre w post. p = pre @ w @ post \<and> lower w = kw)"

text \<open>A log entry without its time stamp.\<close>

definition erase :: "'f LogEntry \<Rightarrow> 'f LogEntry" where
  "erase e = e\<lparr>timestamp := []\<rparr>"

text \<open>
  The offsets from the session start, in seconds, at which the failure phase and the
  investigation loop stamp their entries, when the running time stands at \<open>d\<close>.
\<close>

fun failure_offsets :: "int \<Rightarrow> 'f TestOutput list \<Rightarrow> int list" where
  "failure_offsets d [] = []"
| "failure_offsets d (x # xs) =
     (if status x = ''FAIL'' then
        (if truthy (stack_trace x) then (d + 2) # (d + 3) # failure_offsets (d + 3) xs
         else (d + 2) # failure_offsets (d + 2) xs)
      else failure_offsets d xs)"

fun investigation_offsets :: "int \<Rightarrow> string list \<Rightarrow> int list" where
  "investigation_offsets d [] = []"
| "investigation_offsets d (c # cs) = (d + 10) # investigation_offsets (d + 10) cs"

text \<open>What one iteration of each loop appends.\<close>

definition step_logs :: "(datetime \<Rightarrow> string) \<Rightarrow> datetime \<Rightarrow> 'f TestOutput \<Rightarrow> 'f LogEntry list" where
  "step_logs isoformat t x = fst (snd (failure_step isoformat x (t, [], [])))"

definition step_steps :: "'f TestOutput \<Rightarrow> string list" where
  "step_steps x = (if status x = ''FAIL'' then [''Identified failing test: '' @ test_name x] else [])"

definition inv_logs :: "(datetime \<Rightarrow> string) \<Rightarrow> datetime \<Rightarrow> string \<Rightarrow> 'f LogEntry list" where
  "inv_logs isoformat t c = fst (snd (investigation_step isoformat c (t, [], [])))"

text \<open>Sample inputs.\<close>

definition example_bug :: Defects4JBug where
  "example_bug = \<lparr>project = ''Lang'', bug_id = ''1'',
     triggering_tests = [''org.Foo::testBar''], bug_report_url = ''http://x'',
     patch = ''if (a == null)'',
     modified_classes = [''org.A'', ''org.B'', ''org.C'', ''org.D''],
     checkout_path = None\<rparr>"

definition example_outcome :: "string \<Rightarrow> string option \<Rightarrow> string option \<Rightarrow> unit TestOutput" where
  "example_outcome st err tr = \<lparr>test_name = ''org.Foo::testBar'', status = st,
     error_message = err, stack_trace = tr, execution_time = (), timestamp = 0\<rparr>"

text \<open>
  A sample of the tool's \<open>info\<close> output, with one exception-detail line, and a sample
  \<open>failing_tests\<close> report whose first entry has no content.
\<close>

definition example_info_output :: string where
  "example_info_output =
     ''Summary for Bug: Lang-1'' @ [NL] @
     ''Root cause in triggering tests:'' @ [NL] @
     '' - a.B::c'' @ [NL] @
     ''   --> java.lang.Exception: x'' @ [NL] @
     '' - d.E::f'' @ [NL] @
     ''----'' @ [NL] @
     ''List of modified sources:'' @ [NL] @
     '' - org.A'' @ [NL] @
     ''----'' @ [NL]"

definition example_failing_tests :: string where
  "example_failing_tests =
     ''--- a.B::c'' @ [NL] @
     ''--- d.E::f'' @ [NL] @
     ''java.lang.Exception: x'' @ [NL] @
     ''    at d.E.f(E.java:1)'' @ [NL]"

text \<open>
  What \<open>json.loads\<close> builds from the text that \<open>json.dumps\<close> writes for a value: the same
  structure, with each number as its lexeme.
\<close>

fun shape :: "('f \<Rightarrow> string) \<Rightarrow> 'f pyval \<Rightarrow> jval"
  and shape_elems :: "('f \<Rightarrow> string) \<Rightarrow> 'f pyval list \<Rightarrow> jval list"
  and shape_items :: "('f \<Rightarrow> string) \<Rightarrow> (string \<times> 'f pyval) list \<Rightarrow> (string \<times> jval) list" where
  "shape float_repr PNone = JNull"
| "shape float_repr (PStr s) = JStr s"
| "shape float_repr (PInt i) = JNum (str_of_int i)"
| "shape float_repr (PFloat f) = JNum (float_repr f)"
| "shape float_repr (PList xs) = JList (shape_elems float_repr xs)"
| "shape float_repr (PDict kvs) = JDict (shape_items float_repr kvs)"
| "shape_elems float_repr [] = []"
| "shape_elems float_repr (x # xs) = shape float_repr x # shape_elems float_repr xs"
| "shape_items float_repr [] = []"
| "shape_items float_repr ((k, v) # kvs) = (k, shape float_repr v) # shape_items float_repr kvs"

text \<open>
  What may follow a value in a JSON text that \<open>json.dumps\<close> wrote: nothing, a comma, or a
  closing bracket or brace.
\<close>

definition after_value :: "string \<Rightarrow> bool" where
  "after_value rest \<longleftrightarrow> (case rest of [] \<Rightarrow> True | c # cs \<Rightarrow> c \<in> set '',]}'')"

text \<open>
  What the export needs of the text of a float: the scanner of numbers reads it whole, and it
  holds no line feed.  (\<open>float.__repr__\<close> writes digits, a sign, a point, an exponent, or
  the words \<open>inf\<close> and \<open>nan\<close>, which \<open>json.dumps\<close> replaces by the constants.)
\<close>

definition float_repr_ok :: "('f \<Rightarrow> string) \<Rightarrow> bool" where
  "float_repr_ok float_repr \<longleftrightarrow>
     (\<forall>f rest. after_value rest \<longrightarrow> scan_number (float_repr f @ rest) = Some (float_repr f, rest))
     \<and> (\<forall>f. NL \<notin> set (float_repr f))"

text \<open>Whether the position after reading \<open>u\<close> starts a line.\<close>

definition bol_after :: "bool \<Rightarrow> string \<Rightarrow> bool" where
  "bol_after b u = (if u = [] then b else last u = NL)"

text \<open>The characters that a value written by \<open>json.dumps\<close> starts with.\<close>

definition value_start :: "char \<Rightarrow> bool" where
  "value_start c \<longleftrightarrow> c \<in> set (CHR 0x22 # ''{[n-0123456789NI'')"

text \<open>A sample session with one log entry, and the text of the float \<open>0.0\<close>.\<close>

definition example_session :: "unit SyntheticDebugSession" where
  "example_session =
     \<lparr>bug_info = example_bug, test_outputs = [example_outcome ''FAIL'' (Some ''boom'') None],
      log_sequence = [\<lparr>timestamp = ''2024-01-15T10:30:00'', level = ''ERROR'', source = ''test'',
                        message = ''Test failed: org.Foo::testBar'',
                        metadata = Some [(''error'', PStr (''line 1'' @ [NL] @ ''line 2'')),
                                         (''execution_time'', PFloat ())]\<rparr>],
      investigation_timeline = [''Identified failing test: org.Foo::testBar''],
      root_cause_summary = ''Bug in Lang (#1)''\<rparr>"

definition example_float_repr :: "unit \<Rightarrow> string" where
  "example_float_repr u = ''0.0''"

section \<open>Properties of the log synthesis\<close>

lemma str_in_iff: "str_in sub s \<longleftrightarrow> (\<exists>pre post. s = pre @ sub @ post)"
proof (induction s)
  case Nil
  then show ?case by auto
next
  case (Cons c cs)
  show ?case
  proof
    assume "str_in sub (c # cs)"
    then consider "prefix sub (c # cs)" | "str_in sub cs" by auto
    then show "\<exists>pre post. c # cs = pre @ sub @ post"
    proof cases
      case 1
      then obtain post where "c # cs = sub @ post" by (auto simp: prefix_def)
      then have "c # cs = [] @ sub @ post" by simp
      then show ?thesis by blast
    next
      case 2
      with Cons.IH obtain pre post where "cs = pre @ sub @ post" by blast
      then have "c # cs = (c # pre) @ sub @ post" by simp
      then show ?thesis by blast
    qed
  next
    assume "\<exists>pre post. c # cs = pre @ sub @ post"
    then obtain pre post where e: "c # cs = pre @ sub @ post" by blast
    show "str_in sub (c # cs)"
    proof (cases pre)
      case Nil
      with e have "prefix sub (c # cs)" by (simp add: prefix_def)
      then show ?thesis by simp
    next
      case (Cons a pre')
      with e have "cs = pre' @ sub @ post" by simp
      with Cons.IH show ?thesis by auto
    qed
  qed
qed

lemma str_in_lower_iff: "str_in kw (lower p) \<longleftrightarrow> occurs_ignoring_case kw p"
proof
  assume "str_in kw (lower p)"
  then obtain a b where "map lower_char p = a @ kw @ b"
    by (auto simp: str_in_iff lower_def)
  then have "\<exists>pre w post. p = pre @ w @ post \<and> map lower_char w = kw"
    by (metis map_eq_append_conv)
  then obtain pre w post where p: "p = pre @ w @ post" "map lower_char w = kw"
    by blast
  then show "occurs_ignoring_case kw p"
    by (auto simp: occurs_ignoring_case_def lower_def)
next
  assume "occurs_ignoring_case kw p"
  then obtain pre w post where "p = pre @ w @ post" and "lower w = kw"
    by (auto simp: occurs_ignoring_case_def)
  then have "lower p = lower pre @ kw @ lower post"
    by (auto simp: lower_def)
  then show "str_in kw (lower p)"
    unfolding str_in_iff by blast
qed

text \<open>
  Claim C3: for every patch string, root-cause inference answers ``Logic error in
  implementation'' on the empty patch and otherwise follows the fixed precedence of keywords,
  matched without regard to case: \<open>null\<close>, then \<open>bound\<close> or \<open>index\<close>, then \<open>assert\<close>,
  then the operators \<open>==\<close> or \<open>!=\<close>, then the default.  A patch holding both \<open>null\<close> and
  \<open>bound\<close> falls in the null-handling category.
\<close>

theorem infer_root_cause_precedence:
  "infer_root_cause_from_patch p =
     (if p = [] then ''Logic error in implementation''
      else if occurs_ignoring_case ''null'' p then ''Null pointer handling issue''
      else if occurs_ignoring_case ''bound'' p \<or> occurs_ignoring_case ''index'' p
        then ''Array bounds or indexing error''
      else if occurs_ignoring_case ''assert'' p then ''Assertion or validation error''
      else if occurs ''=='' p \<or> occurs ''!='' p then ''Comparison or equality check error''
      else ''Logic error in implementation'')
   \<and> (occurs_ignoring_case ''null'' p \<and> occurs_ignoring_case ''bound'' p
        \<longrightarrow> infer_root_cause_from_patch p = ''Null pointer handling issue'')"
proof -
  have "occurs_ignoring_case ''null'' p \<Longrightarrow> p \<noteq> []"
    by (auto simp: occurs_ignoring_case_def lower_def)
  then show ?thesis
    unfolding infer_root_cause_from_patch_def str_in_lower_iff
    by (simp add: str_in_iff occurs_def)
qed

theorem infer_root_cause_precedence_witness:
  "occurs_ignoring_case ''null'' ''NULL check on array Bound''
   \<and> occurs_ignoring_case ''bound'' ''NULL check on array Bound''
   \<and> infer_root_cause_from_patch ''NULL check on array Bound'' = ''Null pointer handling issue''"
proof -
  have a: "occurs_ignoring_case ''null'' ''NULL check on array Bound''"
    unfolding str_in_lower_iff [symmetric] by code_simp
  have b: "occurs_ignoring_case ''bound'' ''NULL check on array Bound''"
    unfolding str_in_lower_iff [symmetric] by code_simp
  from a b infer_root_cause_precedence [of "''NULL check on array Bound''"]
  show ?thesis by blast
qed

lemma infer_root_cause_examples:
  "infer_root_cause_from_patch ''fix: check for null before use'' = ''Null pointer handling issue''"
  "infer_root_cause_from_patch '''' = ''Logic error in implementation''"
  "infer_root_cause_from_patch ''array index out of bound'' = ''Array bounds or indexing error''"
  "infer_root_cause_from_patch ''if (a != b) return;'' = ''Comparison or equality check error''"
  "infer_root_cause_from_patch ''ASSERT(x)'' = ''Assertion or validation error''"
  by code_simp+

lemma ts_add: "b + timedelta_seconds d + timedelta_seconds e = b + timedelta_seconds (d + e)"
  by (simp add: timedelta_seconds_def algebra_simps)

lemma failure_fold_length:
  "fold (failure_step isoformat) outs (t, logs, steps) = (t', logs', steps') \<Longrightarrow>
     length logs' = length logs + length (filter (\<lambda>t. status t = ''FAIL'') outs) + length (filter (\<lambda>t. status t = ''FAIL'' \<and> truthy (stack_trace t)) outs)
     \<and> length steps' = length steps + length (filter (\<lambda>t. status t = ''FAIL'') outs)"
proof (induction outs arbitrary: t logs steps)
  case Nil
  then show ?case by simp
next
  case (Cons x xs)
  obtain t1 l1 s1 where st: "failure_step isoformat x (t, logs, steps) = (t1, l1, s1)"
    by (cases "failure_step isoformat x (t, logs, steps)") auto
  with Cons.prems have "fold (failure_step isoformat) xs (t1, l1, s1) = (t', logs', steps')"
    by simp
  from Cons.IH [OF this] have ih:
    "length logs' = length l1 + length (filter (\<lambda>t. status t = ''FAIL'') xs) + length (filter (\<lambda>t. status t = ''FAIL'' \<and> truthy (stack_trace t)) xs)"
    "length steps' = length s1 + length (filter (\<lambda>t. status t = ''FAIL'') xs)" by auto
  from st have "length l1 = length logs + (if status x = ''FAIL'' then 1 else 0)
       + (if status x = ''FAIL'' \<and> truthy (stack_trace x) then 1 else 0)"
    "length s1 = length steps + (if status x = ''FAIL'' then 1 else 0)"
    by (auto simp: failure_step_def Let_def split: if_splits)
  with ih show ?case by simp
qed

lemma failure_fold_skip:
  "fold (failure_step isoformat) (filter (\<lambda>t. status t = ''FAIL'') outs) st = fold (failure_step isoformat) outs st"
proof (induction outs arbitrary: st)
  case Nil
  then show ?case by simp
next
  case (Cons x xs)
  have "status x \<noteq> ''FAIL'' \<Longrightarrow> failure_step isoformat x st = st"
    by (cases st) (simp add: failure_step_def)
  with Cons show ?case by simp
qed

lemma failure_fold_none:
  "\<forall>x \<in> set outs. status x \<noteq> ''FAIL'' \<Longrightarrow> fold (failure_step isoformat) outs st = st"
proof (induction outs arbitrary: st)
  case Nil
  then show ?case by simp
next
  case (Cons x xs)
  then have "failure_step isoformat x st = st"
    by (cases st) (simp add: failure_step_def)
  with Cons show ?case by simp
qed

lemma failure_fold_stamps:
  "fold (failure_step isoformat) outs (base + timedelta_seconds d, logs, steps) = (t', logs', steps') \<Longrightarrow>
     map timestamp logs' = map timestamp logs
        @ map (\<lambda>x. isoformat (base + timedelta_seconds x)) (failure_offsets d outs)"
proof (induction outs arbitrary: d logs steps)
  case Nil
  then show ?case by simp
next
  case (Cons x xs)
  show ?case
  proof (cases "status x = ''FAIL''")
    case False
    then have "failure_step isoformat x (base + timedelta_seconds d, logs, steps)
                 = (base + timedelta_seconds d, logs, steps)"
      by (simp add: failure_step_def)
    with Cons.prems Cons.IH [of d logs steps] False show ?thesis by simp
  next
    case True
    show ?thesis
    proof (cases "truthy (stack_trace x)")
      case True
      with \<open>status x = ''FAIL''\<close> obtain l1 s1 where
        st: "failure_step isoformat x (base + timedelta_seconds d, logs, steps)
              = (base + timedelta_seconds (d + 3), l1, s1)"
        and l1: "map timestamp l1 = map timestamp logs
              @ [isoformat (base + timedelta_seconds (d + 2)), isoformat (base + timedelta_seconds (d + 3))]"
        by (simp add: failure_step_def Let_def timedelta_seconds_def algebra_simps)
      from Cons.prems st have "fold (failure_step isoformat) xs (base + timedelta_seconds (d + 3), l1, s1)
           = (t', logs', steps')" by simp
      from Cons.IH [OF this] l1 True \<open>status x = ''FAIL''\<close> show ?thesis by simp
    next
      case False
      with \<open>status x = ''FAIL''\<close> obtain l1 s1 where
        st: "failure_step isoformat x (base + timedelta_seconds d, logs, steps)
              = (base + timedelta_seconds (d + 2), l1, s1)"
        and l1: "map timestamp l1 = map timestamp logs
              @ [isoformat (base + timedelta_seconds (d + 2))]"
        by (simp add: failure_step_def Let_def timedelta_seconds_def algebra_simps)
      from Cons.prems st have "fold (failure_step isoformat) xs (base + timedelta_seconds (d + 2), l1, s1)
           = (t', logs', steps')" by simp
      from Cons.IH [OF this] l1 False \<open>status x = ''FAIL''\<close> show ?thesis by simp
    qed
  qed
qed

lemma failure_step_append:
  "\<exists>t'. failure_step isoformat x (t, l, s) = (t', l @ step_logs isoformat t x, s @ step_steps x)"
  by (simp add: failure_step_def step_logs_def step_steps_def Let_def)

lemma step_logs_erase: "map erase (step_logs i1 t1 x) = map erase (step_logs i2 t2 x)"
  by (simp add: failure_step_def step_logs_def Let_def erase_def)

lemma failure_fold_erase:
  "fold (failure_step i1) outs (t1, l1, s1) = (t1', l1', s1') \<Longrightarrow>
   fold (failure_step i2) outs (t2, l2, s2) = (t2', l2', s2') \<Longrightarrow>
   map erase l1 = map erase l2 \<Longrightarrow> s1 = s2 \<Longrightarrow>
   map erase l1' = map erase l2' \<and> s1' = s2'"
proof (induction outs arbitrary: t1 l1 s1 t2 l2 s2)
  case Nil
  then show ?case by simp
next
  case (Cons x xs)
  obtain a1 where f1: "failure_step i1 x (t1, l1, s1) = (a1, l1 @ step_logs i1 t1 x, s1 @ step_steps x)"
    using failure_step_append by blast
  obtain a2 where f2: "failure_step i2 x (t2, l2, s2) = (a2, l2 @ step_logs i2 t2 x, s2 @ step_steps x)"
    using failure_step_append by blast
  from Cons.prems(3,4) step_logs_erase [of i1 t1 x i2 t2]
  have rel: "map erase (l1 @ step_logs i1 t1 x) = map erase (l2 @ step_logs i2 t2 x)"
    "s1 @ step_steps x = s2 @ step_steps x" by auto
  from Cons.prems(1) f1 have r1: "fold (failure_step i1) xs (a1, l1 @ step_logs i1 t1 x, s1 @ step_steps x) = (t1', l1', s1')" by simp
  from Cons.prems(2) f2 have r2: "fold (failure_step i2) xs (a2, l2 @ step_logs i2 t2 x, s2 @ step_steps x) = (t2', l2', s2')" by simp
  from Cons.IH [OF r1 r2 rel] show ?case .
qed

lemma investigation_fold_shape:
  "fold (investigation_step isoformat) cs (t, logs, steps) = (t', logs', steps') \<Longrightarrow>
     length logs' = length logs + length cs
     \<and> steps' = steps @ map (\<lambda>c. ''Analyzed '' @ c) cs"
proof (induction cs arbitrary: t logs steps)
  case Nil
  then show ?case by simp
next
  case (Cons c cs)
  obtain t1 l1 where st: "investigation_step isoformat c (t, logs, steps)
      = (t1, l1, steps @ [''Analyzed '' @ c])" and l1: "length l1 = Suc (length logs)"
    by (simp add: investigation_step_def Let_def)
  with Cons.prems have "fold (investigation_step isoformat) cs (t1, l1, steps @ [''Analyzed '' @ c])
      = (t', logs', steps')" by simp
  from Cons.IH [OF this] l1 show ?case by simp
qed

lemma investigation_fold_stamps:
  "fold (investigation_step isoformat) cs (base + timedelta_seconds d, logs, steps) = (t', logs', steps') \<Longrightarrow>
     map timestamp logs' = map timestamp logs
        @ map (\<lambda>x. isoformat (base + timedelta_seconds x)) (investigation_offsets d cs)"
proof (induction cs arbitrary: d logs steps)
  case Nil
  then show ?case by simp
next
  case (Cons c cs)
  obtain l1 s1 where st: "investigation_step isoformat c (base + timedelta_seconds d, logs, steps)
      = (base + timedelta_seconds (d + 10), l1, s1)"
    and l1: "map timestamp l1 = map timestamp logs @ [isoformat (base + timedelta_seconds (d + 10))]"
    by (simp add: investigation_step_def Let_def timedelta_seconds_def algebra_simps)
  with Cons.prems have "fold (investigation_step isoformat) cs (base + timedelta_seconds (d + 10), l1, s1)
      = (t', logs', steps')" by simp
  from Cons.IH [OF this] l1 show ?case by simp
qed

lemma investigation_step_append:
  "\<exists>t'. investigation_step isoformat c (t, l, s) = (t', l @ inv_logs isoformat t c, s @ [''Analyzed '' @ c])"
  by (simp add: investigation_step_def inv_logs_def Let_def)

lemma inv_logs_erase: "map erase (inv_logs i1 t1 c) = map erase (inv_logs i2 t2 c)"
  by (simp add: investigation_step_def inv_logs_def Let_def erase_def)

lemma investigation_fold_erase:
  "fold (investigation_step i1) cs (t1, l1, s1) = (t1', l1', s1') \<Longrightarrow>
   fold (investigation_step i2) cs (t2, l2, s2) = (t2', l2', s2') \<Longrightarrow>
   map erase l1 = map erase l2 \<Longrightarrow> s1 = s2 \<Longrightarrow>
   map erase l1' = map erase l2' \<and> s1' = s2'"
proof (induction cs arbitrary: t1 l1 s1 t2 l2 s2)
  case Nil
  then show ?case by simp
next
  case (Cons c cs)
  obtain a1 where f1: "investigation_step i1 c (t1, l1, s1) = (a1, l1 @ inv_logs i1 t1 c, s1 @ [''Analyzed '' @ c])"
    using investigation_step_append by blast
  obtain a2 where f2: "investigation_step i2 c (t2, l2, s2) = (a2, l2 @ inv_logs i2 t2 c, s2 @ [''Analyzed '' @ c])"
    using investigation_step_append by blast
  from Cons.prems(3,4) inv_logs_erase [of i1 t1 c i2 t2]
  have rel: "map erase (l1 @ inv_logs i1 t1 c) = map erase (l2 @ inv_logs i2 t2 c)"
    "s1 @ [''Analyzed '' @ c] = s2 @ [''Analyzed '' @ c]" by auto
  from Cons.prems(1) f1 have r1: "fold (investigation_step i1) cs (a1, l1 @ inv_logs i1 t1 c, s1 @ [''Analyzed '' @ c]) = (t1', l1', s1')" by simp
  from Cons.prems(2) f2 have r2: "fold (investigation_step i2) cs (a2, l2 @ inv_logs i2 t2 c, s2 @ [''Analyzed '' @ c]) = (t2', l2', s2')" by simp
  from Cons.IH [OF r1 r2 rel] show ?case .
qed

lemma session_logs:
  "log_sequence (generate_debug_session isoformat base bug outs) =
     fst (generate_setup_phase isoformat base bug outs)
     @ fst (generate_failure_phase isoformat base bug outs)
     @ fst (generate_investigation_phase isoformat base bug)
     @ fst (generate_discovery_phase isoformat base bug)
     @ fst (generate_resolution_phase isoformat base bug)"
  by (simp add: generate_debug_session_def split_beta Let_def)

lemma session_timeline:
  "investigation_timeline (generate_debug_session isoformat base bug (outs :: 'f TestOutput list)) =
     snd (generate_setup_phase isoformat base bug outs)
     @ snd (generate_failure_phase isoformat base bug outs)
     @ snd (generate_investigation_phase isoformat base bug :: 'f LogEntry list \<times> string list)
     @ snd (generate_discovery_phase isoformat base bug :: 'f LogEntry list \<times> string list)
     @ snd (generate_resolution_phase isoformat base bug :: 'f LogEntry list \<times> string list)"
  by (simp add: generate_debug_session_def split_beta Let_def)

lemma setup_lengths:
  "length (fst (generate_setup_phase isoformat base bug outs)) = 2"
  "length (snd (generate_setup_phase isoformat base bug outs)) = 2"
  by (simp_all add: generate_setup_phase_def Let_def)

lemma discovery_lengths:
  "length (fst (generate_discovery_phase isoformat base bug)) = 2"
  "length (snd (generate_discovery_phase isoformat base bug)) = 2"
  by (simp_all add: generate_discovery_phase_def Let_def)

lemma resolution_lengths:
  "length (fst (generate_resolution_phase isoformat base bug)) = 3"
  "length (snd (generate_resolution_phase isoformat base bug)) = 3"
  by (simp_all add: generate_resolution_phase_def Let_def)

lemma failure_lengths:
  "length (fst (generate_failure_phase isoformat base bug outs))
     = length (filter (\<lambda>t. status t = ''FAIL'') outs) + length (filter (\<lambda>t. status t = ''FAIL'' \<and> truthy (stack_trace t)) outs)"
  "length (snd (generate_failure_phase isoformat base bug outs)) = length (filter (\<lambda>t. status t = ''FAIL'') outs)"
proof -
  obtain t l s where f: "fold (failure_step isoformat) outs (base + timedelta_seconds 10, [], []) = (t, l, s)"
    by (cases "fold (failure_step isoformat) outs (base + timedelta_seconds 10, [], [])") auto
  from failure_fold_length [OF f] f
  show "length (fst (generate_failure_phase isoformat base bug outs))
     = length (filter (\<lambda>t. status t = ''FAIL'') outs) + length (filter (\<lambda>t. status t = ''FAIL'' \<and> truthy (stack_trace t)) outs)"
    "length (snd (generate_failure_phase isoformat base bug outs)) = length (filter (\<lambda>t. status t = ''FAIL'') outs)"
    by (simp_all add: generate_failure_phase_def)
qed

lemma investigation_lengths:
  "length (fst (generate_investigation_phase isoformat base bug :: 'f LogEntry list \<times> string list)) = 1 + min 3 (length (modified_classes bug))"
  "length (snd (generate_investigation_phase isoformat base bug :: 'f LogEntry list \<times> string list)) = 1 + min 3 (length (modified_classes bug))"
proof -
  let ?t = "base + timedelta_minutes 1"
  let ?l = "[\<lparr>timestamp = isoformat ?t, level = ''DEBUG'', source = ''debugger'',
                    message = ''Starting code investigation'',
                    metadata = Some [(''modified_classes'',
                                      PList (map PStr (modified_classes bug)))]\<rparr>] :: 'f LogEntry list"
  let ?s = "[''Began examining modified classes'']"
  obtain t l s where f: "fold (investigation_step isoformat) (take 3 (modified_classes bug)) (?t, ?l, ?s) = (t, l, s)"
    by (cases "fold (investigation_step isoformat) (take 3 (modified_classes bug)) (?t, ?l, ?s)") auto
  from f have g: "(generate_investigation_phase isoformat base bug :: 'f LogEntry list \<times> string list) = (l, s)"
    by (simp add: generate_investigation_phase_def Let_def)
  from investigation_fold_shape [OF f]
  show "length (fst (generate_investigation_phase isoformat base bug :: 'f LogEntry list \<times> string list)) = 1 + min 3 (length (modified_classes bug))"
    "length (snd (generate_investigation_phase isoformat base bug :: 'f LogEntry list \<times> string list)) = 1 + min 3 (length (modified_classes bug))"
    unfolding g by (simp_all add: min.commute)
qed

text \<open>
  Claim C10: the session has \<open>2 + f + s + 1 + min 3 c + 2 + 3\<close> log entries and
  \<open>2 + f + 1 + min 3 c + 2 + 3\<close> time-line entries, for \<open>f\<close> outcomes of status \<open>FAIL\<close>,
  \<open>s\<close> of them with a non-empty stack trace, and \<open>c\<close> modified classes.  Outcomes of another
  status contribute nothing, and the session keeps the outcome list as it was given.
\<close>

theorem session_entry_counts:
  "length (log_sequence (generate_debug_session isoformat base bug outs))
     = 2 + length (filter (\<lambda>t. status t = ''FAIL'') outs)
         + length (filter (\<lambda>t. status t = ''FAIL'' \<and> truthy (stack_trace t)) outs)
         + 1 + min 3 (length (modified_classes bug)) + 2 + 3
   \<and> length (investigation_timeline (generate_debug_session isoformat base bug outs))
     = 2 + length (filter (\<lambda>t. status t = ''FAIL'') outs)
         + 1 + min 3 (length (modified_classes bug)) + 2 + 3
   \<and> generate_failure_phase isoformat base bug outs
     = generate_failure_phase isoformat base bug (filter (\<lambda>t. status t = ''FAIL'') outs)
   \<and> test_outputs (generate_debug_session isoformat base bug outs) = outs"
proof -
  have "generate_failure_phase isoformat base bug outs
     = generate_failure_phase isoformat base bug (filter (\<lambda>t. status t = ''FAIL'') outs)"
    by (simp add: generate_failure_phase_def failure_fold_skip)
  moreover have "test_outputs (generate_debug_session isoformat base bug outs) = outs"
    by (simp add: generate_debug_session_def split_beta Let_def)
  ultimately show ?thesis
    unfolding session_logs session_timeline
    by (simp add: setup_lengths failure_lengths investigation_lengths discovery_lengths
        resolution_lengths)
qed

lemma failure_phase_none:
  assumes "\<forall>x \<in> set outs. status x \<noteq> ''FAIL''"
  shows "generate_failure_phase isoformat base bug outs = ([], [])"
  by (simp add: generate_failure_phase_def failure_fold_none [OF assms])

lemma investigation_phase_entries:
  "(generate_investigation_phase isoformat base bug :: 'f LogEntry list \<times> string list) =
     (\<lparr>timestamp = isoformat (base + timedelta_seconds 60), level = ''DEBUG'',
        source = ''debugger'', message = ''Starting code investigation'',
        metadata = Some [(''modified_classes'', PList (map PStr (modified_classes bug)))]\<rparr>
      # map (\<lambda>(d, c). \<lparr>timestamp = isoformat (base + timedelta_seconds d), level = ''DEBUG'',
                        source = ''debugger'', message = ''Examining class: '' @ c,
                        metadata = Some [(''class'', PStr c),
                                         (''methods_checked'',
                                          PList [PStr ''method1'', PStr ''method2''])]\<rparr>)
          (zip [70, 80, 90] (modified_classes bug)),
      ''Began examining modified classes''
      # map (\<lambda>c. ''Analyzed '' @ c) (take 3 (modified_classes bug)))"
proof -
  consider "modified_classes bug = []"
    | a where "modified_classes bug = [a]"
    | a b where "modified_classes bug = [a, b]"
    | a b c r where "modified_classes bug = a # b # c # r"
    by (metis list.exhaust)
  then show ?thesis
  proof cases
    case 1
    then show ?thesis
      by (simp add: generate_investigation_phase_def Let_def timedelta_minutes_def timedelta_seconds_def add.commute)
  next
    case 2
    then show ?thesis
      by (simp add: generate_investigation_phase_def investigation_step_def Let_def timedelta_minutes_def timedelta_seconds_def add.commute)
  next
    case 3
    then show ?thesis
      by (simp add: generate_investigation_phase_def investigation_step_def Let_def timedelta_minutes_def timedelta_seconds_def add.commute)
  next
    case 4
    then show ?thesis
      by (simp add: generate_investigation_phase_def investigation_step_def Let_def timedelta_minutes_def timedelta_seconds_def add.commute)
  qed
qed

text \<open>
  Claim C6: when no outcome has status \<open>FAIL\<close> the failure phase contributes no log
  entry and no time-line entry, and every other phase contributes its fixed entries.  The
  setup phase gives the build entry and the test-run entry, at 0 and 5 seconds, and two
  time-line steps; the investigation phase gives the start entry at 60 seconds, which lists all
  modified classes, then one entry and one time-line step for each of the first three
  modified classes, at 70, 80 and 90 seconds; the discovery phase gives the root-cause entry
  and the patch-review entry, at 120 and 125 seconds, and two time-line steps; the resolution
  phase gives its three entries, at 180, 190 and 195 seconds, and three time-line steps.  The
  session's log sequence and time line are these four contributions in this order, so no
  phase is skipped: \<open>2 + (1 + min 3 c) + 2 + 3\<close> entries each, for \<open>c\<close> modified classes.
\<close>

theorem no_failing_outcome_session:
  fixes outs :: "'f TestOutput list"
  assumes "\<forall>x \<in> set outs. status x \<noteq> ''FAIL''"
  shows
   "(let mc = modified_classes bug;
         hint = infer_root_cause_from_patch (patch bug);
         entry = (\<lambda>d lv src msg md. \<lparr>timestamp = isoformat (base + timedelta_seconds d),
                    level = lv, source = src, message = msg, metadata = Some md\<rparr>);
         setup = ([entry 0 ''INFO'' ''build''
                     (''Building '' @ project bug @ '' project (bug '' @ bug_id bug @ '')'')
                     [(''project'', PStr (project bug)), (''bug_id'', PStr (bug_id bug))],
                   entry 5 ''INFO'' ''test_runner''
                     (''Running test suite ('' @ str_of_nat (length outs) @ '' tests)'')
                     [(''test_count'', PInt (int (length outs)))]],
                  [''Started investigating '' @ project bug @ '' bug #'' @ bug_id bug,
                   ''Executed test suite to reproduce issue'']);
         investigation =
                 (entry 60 ''DEBUG'' ''debugger'' ''Starting code investigation''
                     [(''modified_classes'', PList (map PStr mc))]
                  # map (\<lambda>(d, c). entry d ''DEBUG'' ''debugger'' (''Examining class: '' @ c)
                           [(''class'', PStr c),
                            (''methods_checked'', PList [PStr ''method1'', PStr ''method2''])])
                      (zip [70, 80, 90] mc),
                  ''Began examining modified classes'' # map (\<lambda>c. ''Analyzed '' @ c) (take 3 mc));
         discovery =
                 ([entry 120 ''INFO'' ''debugger'' (''Root cause identified: '' @ hint)
                     [(''bug_url'', PStr (bug_report_url bug))],
                   entry 125 ''DEBUG'' ''debugger'' ''Analyzing patch differences''
                     [(''modified_files'', PInt (int (length mc)))]],
                  [''Discovered root cause: '' @ hint, ''Reviewed patch to understand fix'']);
         resolution =
                 ([entry 180 ''INFO'' ''vcs'' ''Applying patch to fix bug''
                     [(''bug_id'', PStr (bug_id bug))],
                   entry 190 ''INFO'' ''test_runner'' ''Re-running tests after fix''
                     [(''expected_result'', PStr ''PASS'')],
                   entry 195 ''INFO'' ''test'' ''All tests passing after fix''
                     [(''status'', PStr ''SUCCESS'')]],
                  [''Applied patch from fixed version'', ''Verified fix by re-running tests'',
                   ''Confirmed all tests now pass''])
     in generate_failure_phase isoformat base bug outs = ([], [])
      \<and> generate_setup_phase isoformat base bug outs = setup
      \<and> (generate_investigation_phase isoformat base bug :: 'f LogEntry list \<times> string list)
          = investigation
      \<and> (generate_discovery_phase isoformat base bug :: 'f LogEntry list \<times> string list)
          = discovery
      \<and> (generate_resolution_phase isoformat base bug :: 'f LogEntry list \<times> string list)
          = resolution
      \<and> log_sequence (generate_debug_session isoformat base bug outs)
          = fst setup @ fst investigation @ fst discovery @ fst resolution
      \<and> investigation_timeline (generate_debug_session isoformat base bug outs)
          = snd setup @ snd investigation @ snd discovery @ snd resolution
      \<and> length (fst investigation) = 1 + min 3 (length mc)
      \<and> length (snd investigation) = 1 + min 3 (length mc)
      \<and> length (log_sequence (generate_debug_session isoformat base bug outs))
          = 2 + (1 + min 3 (length mc)) + 2 + 3
      \<and> length (investigation_timeline (generate_debug_session isoformat base bug outs))
          = 2 + (1 + min 3 (length mc)) + 2 + 3)"
proof -
  have f: "generate_failure_phase isoformat base bug outs = ([], [])"
    by (rule failure_phase_none [OF assms])
  have s: "generate_setup_phase isoformat base bug outs =
     ([\<lparr>timestamp = isoformat (base + timedelta_seconds 0), level = ''INFO'', source = ''build'',
         message = ''Building '' @ project bug @ '' project (bug '' @ bug_id bug @ '')'',
         metadata = Some [(''project'', PStr (project bug)), (''bug_id'', PStr (bug_id bug))]\<rparr>,
       \<lparr>timestamp = isoformat (base + timedelta_seconds 5), level = ''INFO'',
         source = ''test_runner'',
         message = ''Running test suite ('' @ str_of_nat (length outs) @ '' tests)'',
         metadata = Some [(''test_count'', PInt (int (length outs)))]\<rparr>],
      [''Started investigating '' @ project bug @ '' bug #'' @ bug_id bug,
       ''Executed test suite to reproduce issue''])"
    by (simp add: generate_setup_phase_def Let_def timedelta_seconds_def)
  have d: "(generate_discovery_phase isoformat base bug :: 'f LogEntry list \<times> string list) =
     ([\<lparr>timestamp = isoformat (base + timedelta_seconds 120), level = ''INFO'',
         source = ''debugger'',
         message = ''Root cause identified: '' @ infer_root_cause_from_patch (patch bug),
         metadata = Some [(''bug_url'', PStr (bug_report_url bug))]\<rparr>,
       \<lparr>timestamp = isoformat (base + timedelta_seconds 125), level = ''DEBUG'',
         source = ''debugger'', message = ''Analyzing patch differences'',
         metadata = Some [(''modified_files'', PInt (int (length (modified_classes bug))))]\<rparr>],
      [''Discovered root cause: '' @ infer_root_cause_from_patch (patch bug),
       ''Reviewed patch to understand fix''])"
    by (simp add: generate_discovery_phase_def Let_def timedelta_minutes_def
        timedelta_seconds_def add.commute)
  have r: "(generate_resolution_phase isoformat base bug :: 'f LogEntry list \<times> string list) =
     ([\<lparr>timestamp = isoformat (base + timedelta_seconds 180), level = ''INFO'', source = ''vcs'',
         message = ''Applying patch to fix bug'',
         metadata = Some [(''bug_id'', PStr (bug_id bug))]\<rparr>,
       \<lparr>timestamp = isoformat (base + timedelta_seconds 190), level = ''INFO'',
         source = ''test_runner'', message = ''Re-running tests after fix'',
         metadata = Some [(''expected_result'', PStr ''PASS'')]\<rparr>,
       \<lparr>timestamp = isoformat (base + timedelta_seconds 195), level = ''INFO'', source = ''test'',
         message = ''All tests passing after fix'',
         metadata = Some [(''status'', PStr ''SUCCESS'')]\<rparr>],
      [''Applied patch from fixed version'', ''Verified fix by re-running tests'',
       ''Confirmed all tests now pass''])"
    by (simp add: generate_resolution_phase_def Let_def timedelta_minutes_def
        timedelta_seconds_def add.commute)
  note i = investigation_phase_entries [where ?'f = 'f, of isoformat base bug]
  have m: "min (Suc (Suc (Suc 0))) (length (modified_classes bug))
      = min 3 (length (modified_classes bug))"
    by (simp add: numeral_3_eq_3)
  show ?thesis
    unfolding Let_def session_logs session_timeline f s d r i
    by (simp add: m)
qed

theorem no_failing_outcome_session_witness:
  "generate_failure_phase (\<lambda>t. []) 0 example_bug
        [example_outcome ''PASS'' None None, example_outcome ''ERROR'' (Some ''e'') None] = ([], [])
   \<and> map message (fst (generate_resolution_phase (\<lambda>t. []) 0 example_bug
                          :: unit LogEntry list \<times> string list))
       = [''Applying patch to fix bug'', ''Re-running tests after fix'',
          ''All tests passing after fix'']
   \<and> length (investigation_timeline (generate_debug_session (\<lambda>t. []) 0 example_bug
        [example_outcome ''PASS'' None None, example_outcome ''ERROR'' (Some ''e'') None])) = 11"
proof -
  have h: "\<forall>x \<in> set [example_outcome ''PASS'' None None, example_outcome ''ERROR'' (Some ''e'') None].
      status x \<noteq> ''FAIL''"
    by (simp add: example_outcome_def)
  have "length (modified_classes example_bug) = 4"
    by (simp add: example_bug_def)
  with no_failing_outcome_session [where isoformat = "\<lambda>t. []" and base = 0 and bug = example_bug, OF h] show ?thesis
    by (simp add: Let_def)
qed

text \<open>
  Claim C5: for a bug record with more than three modified classes the investigation
  phase yields one start entry, whose metadata lists all the modified classes, then exactly
  three per-class entries, for the first three classes in order, at 70, 80 and 90 seconds; the
  time line has the matching four steps.  Later classes yield nothing.
\<close>

theorem investigation_capped_at_three:
  assumes "3 < length (modified_classes bug)"
  shows "(generate_investigation_phase isoformat base bug :: 'f LogEntry list \<times> string list) =
     (let mc = modified_classes bug;
          ex = (\<lambda>d c. \<lparr>timestamp = isoformat (base + timedelta_seconds d), level = ''DEBUG'',
                        source = ''debugger'', message = ''Examining class: '' @ c,
                        metadata = Some [(''class'', PStr c),
                                         (''methods_checked'',
                                          PList [PStr ''method1'', PStr ''method2''])]\<rparr>)
      in ([\<lparr>timestamp = isoformat (base + timedelta_seconds 60), level = ''DEBUG'',
             source = ''debugger'', message = ''Starting code investigation'',
             metadata = Some [(''modified_classes'', PList (map PStr mc))]\<rparr>,
           ex 70 (mc ! 0), ex 80 (mc ! 1), ex 90 (mc ! 2)],
          [''Began examining modified classes'',
           ''Analyzed '' @ mc ! 0, ''Analyzed '' @ mc ! 1, ''Analyzed '' @ mc ! 2]))"
proof -
  obtain c0 r0 where m0: "modified_classes bug = c0 # r0"
    using assms by (cases "modified_classes bug") auto
  obtain c1 r1 where m1: "r0 = c1 # r1"
    using assms m0 by (cases r0) auto
  obtain c2 r2 where m2: "r1 = c2 # r2"
    using assms m0 m1 by (cases r1) auto
  have mc: "modified_classes bug = c0 # c1 # c2 # r2"
    using m0 m1 m2 by simp
  show ?thesis
    by (simp add: generate_investigation_phase_def investigation_step_def Let_def mc
        timedelta_minutes_def timedelta_seconds_def add.commute)
qed

theorem investigation_capped_at_three_witness:
  "3 < length (modified_classes example_bug)
   \<and> map message (fst (generate_investigation_phase (\<lambda>t. []) 0 example_bug :: unit LogEntry list \<times> string list))
       = [''Starting code investigation'', ''Examining class: org.A'',
          ''Examining class: org.B'', ''Examining class: org.C'']
   \<and> snd (generate_investigation_phase (\<lambda>t. []) 0 example_bug :: unit LogEntry list \<times> string list)
       = [''Began examining modified classes'', ''Analyzed org.A'', ''Analyzed org.B'',
          ''Analyzed org.C'']"
proof -
  have h: "3 < length (modified_classes example_bug)"
    by (simp add: example_bug_def)
  from investigation_capped_at_three [where ?'f = unit, OF h, of "\<lambda>t. []" 0] h show ?thesis
    by (simp add: example_bug_def Let_def)
qed

lemma find_filter_hd:
  "find P xs = (case filter P xs of [] \<Rightarrow> None | x # _ \<Rightarrow> Some x)"
  by (induction xs) auto

text \<open>
  Claim C4: (as amended) the root-cause summary is the fixed template, with the number of
  outcomes of status \<open>FAIL\<close> and the first two modified classes joined by a comma and a space;
  when the first failing outcome carries a non-empty error message, \<open>Error:\<close>, the first 100
  characters of that message and an ellipsis follow; otherwise nothing follows.
\<close>

theorem root_cause_summary_first_failure:
  "generate_root_cause_summary bug outs =
     ''Bug in '' @ project bug @ '' (#'' @ bug_id bug @ ''): ''
     @ str_of_nat (length (filter (\<lambda>t. status t = ''FAIL'') outs)) @ '' test(s) failed. ''
     @ ''Root cause located in '' @ join '', '' (take 2 (modified_classes bug)) @ ''. ''
     @ (case find (\<lambda>t. status t = ''FAIL'') outs of
          None \<Rightarrow> []
        | Some t \<Rightarrow>
            (case error_message t of
               None \<Rightarrow> []
             | Some m \<Rightarrow> if m = [] then [] else ''Error: '' @ take 100 m @ ''...''))"
  by (simp add: generate_root_cause_summary_def Let_def find_filter_hd truthy_def
      split: list.splits option.splits)

text \<open>
  The claim C4 as written appends the excerpt whenever any failing outcome carries an error
  message.  Here the second failing outcome carries one, the first carries none, and the
  summary is the bare template.
\<close>

theorem root_cause_summary_any_failure_counterexample:
  "status (example_outcome ''FAIL'' (Some ''boom'') None) = ''FAIL''
   \<and> truthy (error_message (example_outcome ''FAIL'' (Some ''boom'') None))
   \<and> generate_root_cause_summary example_bug
        [example_outcome ''FAIL'' None None, example_outcome ''FAIL'' (Some ''boom'') None]
      = ''Bug in Lang (#1): 2 test(s) failed. Root cause located in org.A, org.B. ''
   \<and> \<not> suffix (take 100 ''boom'' @ ''...'')
        (generate_root_cause_summary example_bug
           [example_outcome ''FAIL'' None None, example_outcome ''FAIL'' (Some ''boom'') None])"
  by (simp add: generate_root_cause_summary_def example_outcome_def example_bug_def truthy_def
      Let_def str_of_nat.simps digit_char_def suffix_to_prefix)

lemma setup_stamps:
  "map timestamp (fst (generate_setup_phase isoformat base bug outs))
     = map (\<lambda>d. isoformat (base + timedelta_seconds d)) [0, 5]"
  by (simp add: generate_setup_phase_def Let_def timedelta_seconds_def)

lemma discovery_stamps:
  "map timestamp (fst (generate_discovery_phase isoformat base bug))
     = map (\<lambda>d. isoformat (base + timedelta_seconds d)) [120, 125]"
  by (simp add: generate_discovery_phase_def Let_def timedelta_seconds_def timedelta_minutes_def
      add.commute)

lemma resolution_stamps:
  "map timestamp (fst (generate_resolution_phase isoformat base bug))
     = map (\<lambda>d. isoformat (base + timedelta_seconds d)) [180, 190, 195]"
  by (simp add: generate_resolution_phase_def Let_def timedelta_seconds_def timedelta_minutes_def
      add.commute)

lemma failure_stamps:
  "map timestamp (fst (generate_failure_phase isoformat base bug outs))
     = map (\<lambda>d. isoformat (base + timedelta_seconds d)) (failure_offsets 10 outs)"
proof -
  obtain t l s where f: "fold (failure_step isoformat) outs (base + timedelta_seconds 10, [], []) = (t, l, s)"
    by (cases "fold (failure_step isoformat) outs (base + timedelta_seconds 10, [], [])") auto
  then have g: "generate_failure_phase isoformat base bug outs = (l, s)"
    by (simp add: generate_failure_phase_def)
  from failure_fold_stamps [OF f] show ?thesis unfolding g by simp
qed

lemma investigation_stamps:
  "map timestamp (fst (generate_investigation_phase isoformat base bug))
     = map (\<lambda>d. isoformat (base + timedelta_seconds d))
         (60 # investigation_offsets 60 (take 3 (modified_classes bug)))"
proof -
  have m: "base + timedelta_minutes 1 = base + timedelta_seconds 60"
    by (simp add: timedelta_minutes_def)
  obtain t l s where f: "fold (investigation_step isoformat) (take 3 (modified_classes bug))
      (base + timedelta_seconds 60,
       [\<lparr>timestamp = isoformat (base + timedelta_seconds 60), level = ''DEBUG'', source = ''debugger'',
                    message = ''Starting code investigation'',
                    metadata = Some [(''modified_classes'',
                                      PList (map PStr (modified_classes bug)))]\<rparr>],
       [''Began examining modified classes'']) = (t, l :: 'a LogEntry list, s)"
    using prod_cases3 by metis
  then have g: "generate_investigation_phase isoformat base bug = (l, s)"
    by (simp add: generate_investigation_phase_def Let_def m)
  from investigation_fold_stamps [OF f] show ?thesis unfolding g by simp
qed

lemma session_stamps:
  "map timestamp (log_sequence (generate_debug_session isoformat base bug outs))
     = map (\<lambda>d. isoformat (base + timedelta_seconds d))
         ([0, 5] @ failure_offsets 10 outs
          @ 60 # investigation_offsets 60 (take 3 (modified_classes bug))
          @ [120, 125] @ [180, 190, 195])"
  unfolding session_logs map_append setup_stamps failure_stamps investigation_stamps
    discovery_stamps resolution_stamps
  by simp

lemma setup_erase:
  "map erase (fst (generate_setup_phase i1 b1 bug outs)) = map erase (fst (generate_setup_phase i2 b2 bug outs))"
  "snd (generate_setup_phase i1 b1 bug outs) = snd (generate_setup_phase i2 b2 bug outs)"
  by (simp_all add: generate_setup_phase_def Let_def erase_def)

lemma discovery_erase:
  "map erase (fst (generate_discovery_phase i1 b1 bug :: 'f LogEntry list \<times> string list))
     = map erase (fst (generate_discovery_phase i2 b2 bug))"
  "snd (generate_discovery_phase i1 b1 bug :: 'f LogEntry list \<times> string list)
     = snd (generate_discovery_phase i2 b2 bug :: 'f LogEntry list \<times> string list)"
  by (simp_all add: generate_discovery_phase_def Let_def erase_def)

lemma resolution_erase:
  "map erase (fst (generate_resolution_phase i1 b1 bug :: 'f LogEntry list \<times> string list))
     = map erase (fst (generate_resolution_phase i2 b2 bug))"
  "snd (generate_resolution_phase i1 b1 bug :: 'f LogEntry list \<times> string list)
     = snd (generate_resolution_phase i2 b2 bug :: 'f LogEntry list \<times> string list)"
  by (simp_all add: generate_resolution_phase_def Let_def erase_def)

lemma failure_erase:
  "map erase (fst (generate_failure_phase i1 b1 bug outs)) = map erase (fst (generate_failure_phase i2 b2 bug outs))
   \<and> snd (generate_failure_phase i1 b1 bug outs) = snd (generate_failure_phase i2 b2 bug outs)"
proof -
  obtain t l s where f: "fold (failure_step i1) outs (b1 + timedelta_seconds 10, [], []) = (t, l, s)"
    using prod_cases3 by metis
  obtain t' l' s' where f': "fold (failure_step i2) outs (b2 + timedelta_seconds 10, [], []) = (t', l', s')"
    using prod_cases3 by metis
  from failure_fold_erase [OF f f'] f f' show ?thesis
    by (simp add: generate_failure_phase_def)
qed

lemma investigation_erase:
  "map erase (fst (generate_investigation_phase i1 b1 bug :: 'f LogEntry list \<times> string list))
     = map erase (fst (generate_investigation_phase i2 b2 bug))
   \<and> snd (generate_investigation_phase i1 b1 bug :: 'f LogEntry list \<times> string list)
     = snd (generate_investigation_phase i2 b2 bug :: 'f LogEntry list \<times> string list)"
proof -
  let ?l = "\<lambda>i b. [\<lparr>timestamp = i (b + timedelta_minutes 1), level = ''DEBUG'', source = ''debugger'',
                    message = ''Starting code investigation'',
                    metadata = Some [(''modified_classes'',
                                      PList (map PStr (modified_classes bug)))]\<rparr>] :: 'f LogEntry list"
  let ?s = "[''Began examining modified classes'']"
  obtain t l s where f: "fold (investigation_step i1) (take 3 (modified_classes bug))
       (b1 + timedelta_minutes 1, ?l i1 b1, ?s) = (t, l, s)"
    using prod_cases3 by metis
  obtain t' l' s' where f': "fold (investigation_step i2) (take 3 (modified_classes bug))
       (b2 + timedelta_minutes 1, ?l i2 b2, ?s) = (t', l', s')"
    using prod_cases3 by metis
  have g: "(generate_investigation_phase i1 b1 bug :: 'f LogEntry list \<times> string list) = (l, s)"
    "(generate_investigation_phase i2 b2 bug :: 'f LogEntry list \<times> string list) = (l', s')"
    using f f' by (simp_all add: generate_investigation_phase_def Let_def)
  have "map erase (?l i1 b1) = map erase (?l i2 b2)" by (simp add: erase_def)
  from investigation_fold_erase [OF f f' this] show ?thesis unfolding g by simp
qed

text \<open>
  Time stamps and the session start.  Every time stamp of the log sequence is the rendering
  of the session start plus an offset in seconds, and the offsets are those of the five
  phases: 0 and 5, then the running offsets of the failure loop from 10, then 60 and the
  running offsets of the investigation loop, then 120, 125, 180, 190 and 195.  Everything else
  in the session (the entries without their time stamps, the time line, the summary) is the
  same for every session start and every rendering.  Instants are unbounded here; the
  \<open>datetime\<close> of the library ends at the year 9999.
\<close>

lemma session_rest_independent_of_start:
  fixes outs :: "'f TestOutput list"
  shows "map erase (log_sequence (generate_debug_session i1 b1 bug outs))
           = map erase (log_sequence (generate_debug_session i2 b2 bug outs))
   \<and> investigation_timeline (generate_debug_session i1 b1 bug outs)
           = investigation_timeline (generate_debug_session i2 b2 bug outs)
   \<and> root_cause_summary (generate_debug_session i1 b1 bug outs)
           = root_cause_summary (generate_debug_session i2 b2 bug outs)"
proof -
  have b: "map erase (log_sequence (generate_debug_session i1 b1 bug outs))
           = map erase (log_sequence (generate_debug_session i2 b2 bug outs))"
    unfolding session_logs map_append
    using setup_erase(1) [of i1 b1 bug outs i2 b2] failure_erase [of i1 b1 bug outs i2 b2]
      investigation_erase [where ?'f = 'f, of i1 b1 bug i2 b2]
      discovery_erase(1) [where ?'f = 'f, of i1 b1 bug i2 b2]
      resolution_erase(1) [where ?'f = 'f, of i1 b1 bug i2 b2]
    by simp
  have c: "investigation_timeline (generate_debug_session i1 b1 bug outs)
           = investigation_timeline (generate_debug_session i2 b2 bug outs)"
    unfolding session_timeline
    using setup_erase(2) [of i1 b1 bug outs i2 b2] failure_erase [of i1 b1 bug outs i2 b2]
      investigation_erase [where ?'f = 'f, of i1 b1 bug i2 b2]
      discovery_erase(2) [where ?'f = 'f, of i1 b1 bug i2 b2]
      resolution_erase(2) [where ?'f = 'f, of i1 b1 bug i2 b2]
    by simp
  have d: "root_cause_summary (generate_debug_session i b bug outs)
           = generate_root_cause_summary bug outs" for i b
    by (simp add: generate_debug_session_def split_beta Let_def)
  from b c d show ?thesis by simp
qed

section \<open>Properties of the parsers\<close>

lemma rmatch_from_cont:
  "rmatch r k st = Some x \<Longrightarrow> \<exists>st'. k st' = Some x"
proof (induction r k st arbitrary: x rule: rmatch.induct)
  case (1 w k b s c)
  then show ?case by (auto split: if_splits)
next
  case (2 P k b s c)
  then show ?case by (auto split: list.splits if_splits)
next
  case (3 r1 r2 k st)
  from "3.prems" have "rmatch r1 (\<lambda>st'. rmatch r2 k st') st = Some x" by simp
  from "3.IH"(2) [OF this] obtain st' where "rmatch r2 k st' = Some x" by blast
  from "3.IH"(1) [OF this] show ?case .
next
  case (4 r1 r2 k st)
  show ?case
  proof (cases "rmatch r1 k st")
    case None
    with "4.prems" "4.IH"(2) show ?thesis by simp
  next
    case (Some y)
    with "4.prems" "4.IH"(1) show ?thesis by simp
  qed
next
  case (5 r k b s c)
  show ?case
  proof (cases "rmatch r (\<lambda>(b', s', c'). if length s' < length s then rmatch (Star r) k (b', s', c') else None) (b, s, c)")
    case None
    with "5.prems" show ?thesis by auto
  next
    case (Some y)
    with "5.prems" have y: "y = x" by simp
    from "5.IH"(2) [OF Some] obtain st' where
      "(\<lambda>(b', s', c'). if length s' < length s then rmatch (Star r) k (b', s', c') else None) st' = Some y"
      by blast
    then obtain b' s' c' where st': "st' = (b', s', c')" and l: "length s' < length s"
      and "rmatch (Star r) k (b', s', c') = Some y"
      by (cases st') (auto split: if_splits)
    from "5.IH"(1) [OF l this(3)] y show ?thesis by auto
  qed
next
  case (6 r k st)
  then show ?case by (cases st) (auto split: option.splits)
next
  case (7 r k b s c)
  from "7.IH" [OF "7.prems" [simplified]] show ?case by (auto split: prod.splits)
next
  case (8 k b s c)
  then show ?case by (auto split: if_splits)
next
  case (9 k b s c)
  then show ?case by (auto split: if_splits)
next
  case (10 w k b s c)
  then show ?case by (auto split: if_splits)
qed


lemma search_from_match:
  "search_from r b i s = Some (j, st) \<Longrightarrow> \<exists>b' t. suffix t s \<and> match_here r b' t = Some st"
proof (induction s arbitrary: b i)
  case Nil
  then have "match_here r b [] = Some st" by (auto split: option.splits)
  then show ?case by (metis suffix_order.refl)
next
  case (Cons x xs)
  show ?case
  proof (cases "match_here r b (x # xs)")
    case (Some st0)
    with Cons.prems have "st0 = st" by simp
    with Some show ?thesis by (metis suffix_order.refl)
  next
    case None
    with Cons.prems have "search_from r (x = NL) (Suc i) xs = Some (j, st)" by simp
    from Cons.IH [OF this] obtain b' t where "suffix t xs" "match_here r b' t = Some st" by blast
    then show ?thesis by (metis suffix_Cons)
  qed
qed

lemma search_literal_occurs:
  assumes "search (Seq (Lit h) r) s = Some (j, st)"
  shows "occurs h s"
proof -
  from search_from_match [OF assms [unfolded search_def]] obtain b t where
    t: "suffix t s" and m: "match_here (Seq (Lit h) r) b t = Some st" by blast
  from m have "prefix h t"
    by (auto simp: match_here_def split: if_splits)
  with t show ?thesis
    by (auto simp: occurs_def prefix_def suffix_def)
qed

lemma group_captures:
  assumes "rmatch (Grp g) Some st = Some (b, t, c)"
  shows "c \<noteq> None"
proof -
  from assms obtain b2 s2 c2 where
    "rmatch g (\<lambda>(b', s', c'). Some (b', s', Some (take (length s2 - length s') s2))) (b2, s2, c2)
       = Some (b, t, c)"
    by (cases st) auto
  from rmatch_from_cont [OF this] show ?thesis by auto
qed

lemma seq_captures:
  assumes "\<And>st b t c. rmatch r2 Some st = Some (b, t, c) \<Longrightarrow> c \<noteq> None"
    and "rmatch (Seq r1 r2) Some st = Some (b, t, c)"
  shows "c \<noteq> None"
proof -
  from assms(2) have "rmatch r1 (\<lambda>st'. rmatch r2 Some st') st = Some (b, t, c)" by simp
  from rmatch_from_cont [OF this] assms(1) show ?thesis by blast
qed

lemma block_re_captures:
  assumes "search (block_re h) s = Some (j, b, t, c)"
  shows "c \<noteq> None"
proof -
  from search_from_match [OF assms [unfolded search_def]] obtain b0 t0 where
    "rmatch (block_re h) Some (b0, t0, None) = Some (b, t, c)"
    by (auto simp: match_here_def)
  then show ?thesis
    unfolding block_re_def cat.simps
    by (elim seq_captures [rotated] group_captures)
qed

lemma url_re_captures:
  assumes "search url_re s = Some (j, b, t, c)"
  shows "c \<noteq> None"
proof -
  from search_from_match [OF assms [unfolded search_def]] obtain b0 t0 where
    "rmatch url_re Some (b0, t0, None) = Some (b, t, c)"
    by (auto simp: match_here_def)
  then show ?thesis
    unfolding url_re_def cat.simps
    by (elim seq_captures [rotated] group_captures)
qed

lemma block_re_occurs:
  assumes "search (block_re h) s = Some (j, st)"
  shows "occurs h s"
  using assms unfolding block_re_def cat.simps by (rule search_literal_occurs)

lemma url_re_occurs:
  assumes "search url_re s = Some (j, st)"
  shows "occurs ''Bug report url:'' s"
  using assms unfolding url_re_def cat.simps by (rule search_literal_occurs)

lemma block_part:
  "\<exists>xs. (case search (block_re h) s of
           None \<Rightarrow> Inr []
         | Some (i, b, t, g) \<Rightarrow>
             (case g of None \<Rightarrow> Inl AttributeError | Some block \<Rightarrow> Inr (findall r block)))
        = (Inr xs :: py_error + string list)
      \<and> (\<not> occurs h s \<longrightarrow> xs = [])"
proof (cases "search (block_re h) s")
  case None
  then show ?thesis by simp
next
  case (Some m)
  obtain i b t g where m: "m = (i, b, t, g)" by (cases m) auto
  from block_re_captures [OF Some [unfolded m]] obtain blk where "g = Some blk" by auto
  moreover from block_re_occurs [OF Some [unfolded m]] have "occurs h s" .
  ultimately show ?thesis using Some m by simp
qed

lemma url_part:
  "\<exists>u. (case search url_re s of
          None \<Rightarrow> IStr []
        | Some (i, b, t, g) \<Rightarrow> (case g of None \<Rightarrow> INone | Some u \<Rightarrow> IStr u)) = IStr u
      \<and> (\<not> occurs ''Bug report url:'' s \<longrightarrow> u = [])"
proof (cases "search url_re s")
  case None
  then show ?thesis by simp
next
  case (Some m)
  obtain i b t g where m: "m = (i, b, t, g)" by (cases m) auto
  from url_re_captures [OF Some [unfolded m]] obtain v where "g = Some v" by auto
  moreover from url_re_occurs [OF Some [unfolded m]] have "occurs ''Bug report url:'' s" .
  ultimately show ?thesis using Some m by simp
qed

text \<open>
  Claim C7: on every input text \<open>_parse_bug_info\<close> returns its dictionary, without raising:
  the result is never the error.  When the header of the triggering tests does not occur in the
  text the list of tests is empty, when \<open>Bug report url:\<close> does not occur the URL is the empty
  string, when the header of the modified sources does not occur the list of classes is empty,
  and the patch is always the empty string.
\<close>

theorem parse_bug_info_total:
  "\<exists>tests url sources.
     parse_bug_info text = Inr [(''triggering_tests'', IList tests), (''bug_report_url'', IStr url),
                                (''modified_classes'', IList sources), (''patch'', IStr [])]
     \<and> (\<not> occurs ''Root cause in triggering tests:'' text \<longrightarrow> tests = [])
     \<and> (\<not> occurs ''Bug report url:'' text \<longrightarrow> url = [])
     \<and> (\<not> occurs ''List of modified sources:'' text \<longrightarrow> sources = [])"
proof -
  from block_part [where h = "''Root cause in triggering tests:''" and s = "text" and r = test_item_re]
  obtain tests where t:
    "(case search (block_re ''Root cause in triggering tests:'') text of
           None \<Rightarrow> Inr []
         | Some (i, b, t, g) \<Rightarrow>
             (case g of None \<Rightarrow> Inl AttributeError | Some block \<Rightarrow> Inr (findall test_item_re block)))
        = (Inr tests :: py_error + string list)"
    "\<not> occurs ''Root cause in triggering tests:'' text \<longrightarrow> tests = []" by blast
  from url_part [of "text"] obtain url where u:
    "(case search url_re text of
          None \<Rightarrow> IStr []
        | Some (i, b, t, g) \<Rightarrow> (case g of None \<Rightarrow> INone | Some u \<Rightarrow> IStr u)) = IStr url"
    "\<not> occurs ''Bug report url:'' text \<longrightarrow> url = []" by blast
  from block_part [where h = "''List of modified sources:''" and s = "text" and r = item_re]
  obtain sources where s:
    "(case search (block_re ''List of modified sources:'') text of
           None \<Rightarrow> Inr []
         | Some (i, b, t, g) \<Rightarrow>
             (case g of None \<Rightarrow> Inl AttributeError | Some block \<Rightarrow> Inr (findall item_re block)))
        = (Inr sources :: py_error + string list)"
    "\<not> occurs ''List of modified sources:'' text \<longrightarrow> sources = []" by blast
  have "parse_bug_info text = Inr [(''triggering_tests'', IList tests), (''bug_report_url'', IStr url),
                                (''modified_classes'', IList sources), (''patch'', IStr [])]"
    unfolding parse_bug_info_def parse_bug_info_with_def Let_def t(1) u(1) s(1) by simp
  with t(2) u(2) s(2) show ?thesis by blast
qed

theorem parse_bug_info_total_witness:
  "parse_bug_info ''no sections here'' =
     Inr [(''triggering_tests'', IList []), (''bug_report_url'', IStr []),
          (''modified_classes'', IList []), (''patch'', IStr [])]"
proof -
  have "\<not> str_in ''Root cause in triggering tests:'' ''no sections here''"
    "\<not> str_in ''Bug report url:'' ''no sections here''"
    "\<not> str_in ''List of modified sources:'' ''no sections here''"
    by code_simp+
  then have "\<not> occurs ''Root cause in triggering tests:'' ''no sections here''"
    "\<not> occurs ''Bug report url:'' ''no sections here''"
    "\<not> occurs ''List of modified sources:'' ''no sections here''"
    by (simp_all add: str_in_iff occurs_def)
  with parse_bug_info_total [of "''no sections here''"] show ?thesis by auto
qed

text \<open>
  Claim C1, on the code of mining\_buggy\_code\_logs.py: the pattern for the lines of the
  triggering tests has no lookahead there, and the exception-detail line of the sample output
  comes back as a test name, without its first dash.
\<close>

theorem parse_bug_info_mining_keeps_detail_line:
  "parse_bug_info_mining example_info_output =
     Inr [(''triggering_tests'', IList [''a.B::c'', ''-> java.lang.Exception: x'', ''d.E::f'']),
          (''bug_report_url'', IStr []), (''modified_classes'', IList [''org.A'']),
          (''patch'', IStr [])]"
  by code_simp

text \<open>The same output through the parser of defects\_manager.py.\<close>

lemma parse_bug_info_drops_detail_line:
  "parse_bug_info example_info_output =
     Inr [(''triggering_tests'', IList [''a.B::c'', ''d.E::f'']),
          (''bug_report_url'', IStr []), (''modified_classes'', IList [''org.A'']),
          (''patch'', IStr [])]"
  by code_simp

text \<open>
  Claim C2, on the code: the white space after the name in the header pattern runs over the
  end of the line.  In the sample report the entry of \<open>a.B::c\<close> is empty; the lookup returns
  the header and the content of the next entry.  And the only line of a one-line entry is taken
  for text of the header line, and comes back with a line feed after it.
\<close>

theorem extract_error_takes_next_line_for_header:
  "extract_error_from_failing_tests example_failing_tests ''a.B::c''
     = Some (''--- d.E::f'' @ [NL] @ ''java.lang.Exception: x'' @ [NL] @ ''    at d.E.f(E.java:1)'')
   \<and> extract_error_from_failing_tests (''--- a.B::c'' @ [NL] @ ''java.lang.Exception'' @ [NL])
        ''a.B::c''
     = Some (''java.lang.Exception'' @ [NL])"
  by code_simp

section \<open>Properties of the export\<close>

lemma rmatch_Seq_fun: "rmatch (Seq r1 r2) k = rmatch r1 (rmatch r2 k)"
  by (rule ext) simp

lemma star_cls_Nil: "rmatch (Star (Cls P)) k (b, [], c) = k (b, [], c)"
  by simp

lemma star_cls_Cons:
  "rmatch (Star (Cls P)) k (b, x # xs, c) =
     (if P x then (case rmatch (Star (Cls P)) k (x = NL, xs, c) of
                     Some r \<Rightarrow> Some r
                   | None \<Rightarrow> k (b, x # xs, c))
      else k (b, x # xs, c))"
  by simp

lemma star_cls_stop:
  "s = [] \<or> \<not> P (hd s) \<Longrightarrow> rmatch (Star (Cls P)) k (b, s, c) = k (b, s, c)"
  by (cases s) (simp_all add: star_cls_Nil star_cls_Cons del: rmatch.simps)

lemma star_cls_greedy:
  assumes "\<forall>x \<in> set u. P x" and "s = [] \<or> \<not> P (hd s)"
    and "k (bol_after b u, s, c) \<noteq> None"
  shows "rmatch (Star (Cls P)) k (b, u @ s, c) = k (bol_after b u, s, c)"
  using assms
proof (induction u arbitrary: b)
  case Nil
  then show ?case by (simp add: star_cls_stop bol_after_def del: rmatch.simps)
next
  case (Cons x u)
  have ba: "bol_after (x = NL) u = bol_after b (x # u)"
    by (simp add: bol_after_def)
  from Cons.prems have "k (bol_after (x = NL) u, s, c) \<noteq> None"
    by (simp add: ba)
  with Cons.IH [of "x = NL"] Cons.prems
  have ih: "rmatch (Star (Cls P)) k (x = NL, u @ s, c) = k (bol_after (x = NL) u, s, c)"
    by simp
  with Cons.prems show ?case
    by (auto simp add: star_cls_Cons ba simp del: rmatch.simps split: option.splits)
qed


lemma digit_char_digit: "n < 10 \<Longrightarrow> is_digit (digit_char n)"
proof -
  have "\<forall>k \<in> set [0..<10]. is_digit (digit_char k)" by code_simp
  moreover assume "n < 10"
  ultimately show ?thesis by simp
qed

lemma digit_char_digit19: "0 < n \<Longrightarrow> n < 10 \<Longrightarrow> is_digit19 (digit_char n)"
proof -
  have "\<forall>k \<in> set [1..<10]. is_digit19 (digit_char k)" by code_simp
  moreover assume "0 < n" "n < 10"
  ultimately show ?thesis by simp
qed

lemma str_of_nat_digits: "\<forall>c \<in> set (str_of_nat n). is_digit c"
proof (induction n rule: str_of_nat.induct)
  case (1 n)
  show ?case
  proof (cases "n < 10")
    case True
    then show ?thesis
      by (subst str_of_nat.simps) (simp add: digit_char_digit)
  next
    case False
    with 1 have "\<forall>c \<in> set (str_of_nat (n div 10)). is_digit c" by simp
    moreover have "is_digit (digit_char (n mod 10))" by (simp add: digit_char_digit)
    ultimately show ?thesis using False
      by (subst str_of_nat.simps) simp
  qed
qed

lemma str_of_nat_head:
  "0 < n \<Longrightarrow> \<exists>d ds. str_of_nat n = d # ds \<and> is_digit19 d"
proof (induction n rule: str_of_nat.induct)
  case (1 n)
  show ?case
  proof (cases "n < 10")
    case True
    with "1.prems" show ?thesis
      by (subst str_of_nat.simps) (simp add: digit_char_digit19)
  next
    case False
    then have "0 < n div 10" by simp
    with 1 False obtain d ds where "str_of_nat (n div 10) = d # ds" "is_digit19 d" by blast
    with False show ?thesis
      by (subst str_of_nat.simps) simp
  qed
qed

lemma str_of_nat_zero: "str_of_nat 0 = ''0''"
  by (simp add: str_of_nat.simps digit_char_def)

lemma digit_facts:
  "is_digit c \<Longrightarrow> c \<noteq> NL" "is_digit c \<Longrightarrow> c \<noteq> CHR ''-''"
  "is_digit19 c \<Longrightarrow> c \<noteq> CHR ''0''" "is_digit19 c \<Longrightarrow> is_digit c"
  by (auto simp: is_digit_def is_digit19_def NL_def)

lemma after_value_facts:
  assumes "after_value rest"
  shows "rest = [] \<or> \<not> is_digit (hd rest)" "\<not> prefix ''.'' rest"
    "rest = [] \<or> hd rest \<notin> set ''eE''" "rest = [] \<or> \<not> is_json_ws (hd rest)"
  using assms by (cases rest; auto simp: after_value_def is_digit_def is_json_ws_def NL_def)+

text \<open>The fraction and the exponent are absent before what follows a value.\<close>

lemma number_tail:
  assumes "after_value rest"
  shows "rmatch (Opt (Seq (Lit ''.'') (Plus (Cls is_digit))))
           (\<lambda>st. rmatch (Opt (cat [Cls (\<lambda>c. c \<in> set ''eE''), Opt (Cls (\<lambda>c. c \<in> set ''-+'')),
                    Plus (Cls is_digit)])) Some st) (b, rest, c)
         = Some (b, rest, c)"
  using after_value_facts [OF assms]
  by (cases rest) (auto simp: Plus_def)

lemma str_of_nat_nonempty: "str_of_nat n \<noteq> []"
  by (subst str_of_nat.simps) simp

lemma scan_digits:
  assumes "after_value rest" and "\<forall>c \<in> set ds. is_digit c" and "ds = ''0'' \<or> is_digit19 (hd ds)"
    and "ds \<noteq> []"
  shows "rmatch (cat [Alt (Lit ''0'') (Seq (Cls is_digit19) (Star (Cls is_digit))),
          Opt (Seq (Lit ''.'') (Plus (Cls is_digit))),
          Opt (cat [Cls (\<lambda>c. c \<in> set ''eE''), Opt (Cls (\<lambda>c. c \<in> set ''-+'')),
                    Plus (Cls is_digit)])]) Some (b, ds @ rest, c)
         = Some (bol_after b ds, rest, c)"
proof -
  define K :: "mstate \<Rightarrow> mstate option" where
    "K = rmatch (Opt (Seq (Lit ''.'') (Plus (Cls is_digit))))
           (rmatch (Opt (cat [Cls (\<lambda>c. c \<in> set ''eE''), Opt (Cls (\<lambda>c. c \<in> set ''-+'')),
                    Plus (Cls is_digit)])) Some)"
  have K: "K (b', rest, c') = Some (b', rest, c')" for b' c'
    unfolding K_def by (rule number_tail [OF assms(1)])
  have unfold: "rmatch (cat [Alt (Lit ''0'') (Seq (Cls is_digit19) (Star (Cls is_digit))),
          Opt (Seq (Lit ''.'') (Plus (Cls is_digit))),
          Opt (cat [Cls (\<lambda>c. c \<in> set ''eE''), Opt (Cls (\<lambda>c. c \<in> set ''-+'')),
                    Plus (Cls is_digit)])]) Some st
        = rmatch (Alt (Lit ''0'') (Seq (Cls is_digit19) (Star (Cls is_digit)))) K st" for st
    unfolding K_def by (simp only: cat.simps rmatch_Seq_fun)
  from assms(3) show ?thesis
  proof
    assume "ds = ''0''"
    then show ?thesis unfolding unfold using K
      by (simp add: bol_after_def NL_def)
  next
    assume h: "is_digit19 (hd ds)"
    with assms(4) obtain d ds' where ds: "ds = d # ds'" and d: "is_digit19 d"
      by (cases ds) auto
    from assms(2) ds have all: "\<forall>c \<in> set ds'. is_digit c" by simp
    have stop: "rest = [] \<or> \<not> is_digit (hd rest)"
      using after_value_facts(1) [OF assms(1)] .
    have "rmatch (Star (Cls is_digit)) K (d = NL, ds' @ rest, c)
            = K (bol_after (d = NL) ds', rest, c)"
      by (rule star_cls_greedy [OF all stop]) (simp add: K)
    also have "\<dots> = Some (bol_after (d = NL) ds', rest, c)" by (rule K)
    finally have star: "rmatch (Star (Cls is_digit)) K (d = NL, ds' @ rest, c)
            = Some (bol_after (d = NL) ds', rest, c)" .
    have ba: "bol_after (d = NL) ds' = bol_after b ds"
      by (simp add: bol_after_def ds)
    from d have "d \<noteq> CHR ''0''" by (rule digit_facts)
    with d star show ?thesis unfolding unfold
      by (simp add: ds ba del: rmatch.simps(5))
  qed
qed

lemma scan_number_digits:
  assumes "after_value rest" and "\<forall>c \<in> set ds. is_digit c" and "ds = ''0'' \<or> is_digit19 (hd ds)"
    and "ds \<noteq> []"
  shows "scan_number (ds @ rest) = Some (ds, rest)"
    and "scan_number (CHR ''-'' # ds @ rest) = Some (CHR ''-'' # ds, rest)"
proof -
  define K :: "mstate \<Rightarrow> mstate option" where
    "K = rmatch (cat [Alt (Lit ''0'') (Seq (Cls is_digit19) (Star (Cls is_digit))),
          Opt (Seq (Lit ''.'') (Plus (Cls is_digit))),
          Opt (cat [Cls (\<lambda>c. c \<in> set ''eE''), Opt (Cls (\<lambda>c. c \<in> set ''-+'')),
                    Plus (Cls is_digit)])]) Some"
  have K: "K (b, ds @ rest, c) = Some (bol_after b ds, rest, c)" for b c
    unfolding K_def by (rule scan_digits [OF assms])
  have nodash: "\<not> prefix ''-'' (ds @ rest)"
    using assms(2,4) digit_facts(2) by (cases ds) auto
  have u: "rmatch number_re Some st = rmatch (Opt (Lit ''-'')) K st" for st
    unfolding number_re_def K_def by (simp only: cat.simps rmatch_Seq_fun)
  have "match_here number_re True (ds @ rest) = Some (bol_after True ds, rest, None)"
    unfolding match_here_def u using nodash by (simp add: K)
  then show "scan_number (ds @ rest) = Some (ds, rest)"
    by (simp add: scan_number_def)
  have "match_here number_re True (CHR ''-'' # ds @ rest) = Some (bol_after False ds, rest, None)"
    unfolding match_here_def u by (simp add: K NL_def)
  then show "scan_number (CHR ''-'' # ds @ rest) = Some (CHR ''-'' # ds, rest)"
    by (simp add: scan_number_def)
qed

lemma scan_number_int:
  assumes "after_value rest"
  shows "scan_number (str_of_int i @ rest) = Some (str_of_int i, rest)"
proof -
  have ok: "\<forall>c \<in> set (str_of_nat n). is_digit c"
    "str_of_nat n = ''0'' \<or> is_digit19 (hd (str_of_nat n))" "str_of_nat n \<noteq> []" for n
  proof -
    show "\<forall>c \<in> set (str_of_nat n). is_digit c" by (rule str_of_nat_digits)
    show "str_of_nat n \<noteq> []" by (rule str_of_nat_nonempty)
    show "str_of_nat n = ''0'' \<or> is_digit19 (hd (str_of_nat n))"
    proof (cases "n = 0")
      case True
      then show ?thesis by (simp add: str_of_nat_zero)
    next
      case False
      then have "0 < n" by simp
      from str_of_nat_head [OF this] show ?thesis by auto
    qed
  qed
  show ?thesis
    using scan_number_digits [OF assms ok] by (simp add: str_of_int_def)
qed

lemma of_char_less_256: "(of_char c :: nat) < 256"
proof -
  have "(of_char c :: nat) mod 256 = of_char c" by simp
  then show ?thesis by (metis mod_less_divisor zero_less_numeral)
qed

lemma unhex_hex_digit: "k < 16 \<Longrightarrow> unhex (hex_digit k) = Some k"
proof -
  have "\<forall>j \<in> set [0..<16]. unhex (hex_digit j) = Some j" by code_simp
  moreover assume "k < 16"
  ultimately show ?thesis by simp
qed

lemma hex_digit_no_nl: "k < 16 \<Longrightarrow> hex_digit k \<noteq> NL"
proof -
  have "\<forall>j \<in> set [0..<16]. hex_digit j \<noteq> NL" by code_simp
  moreover assume "k < 16"
  ultimately show ?thesis by simp
qed

lemma byte_nibbles: "(of_char c :: nat) div 16 < 16" "(of_char c :: nat) mod 16 < 16"
  using of_char_less_256 [of c] by (simp_all add: less_mult_imp_div_less)

lemma unhex_zero: "unhex (CHR ''0'') = Some 0"
  by (simp add: unhex_def)

lemma scan_string_escape:
  "scan_string (escape_char c @ rest) =
     (case scan_string rest of Some (r, rest') \<Rightarrow> Some (c # r, rest') | None \<Rightarrow> None)"
proof -
  let ?n = "of_char c :: nat"
  have n: "?n < 256" by (rule of_char_less_256)
  consider (special) "c \<in> set [CHR 0x22, CHR 0x5C, NL, CHR 0x0D, CHR 0x09, CHR 0x08, CHR 0x0C]"
    | (plain) "c \<notin> set [CHR 0x22, CHR 0x5C, NL, CHR 0x0D, CHR 0x09, CHR 0x08, CHR 0x0C]"
        "32 \<le> ?n \<and> ?n \<le> 126"
    | (hex) "c \<notin> set [CHR 0x22, CHR 0x5C, NL, CHR 0x0D, CHR 0x09, CHR 0x08, CHR 0x0C]"
        "\<not> (32 \<le> ?n \<and> ?n \<le> 126)"
    by blast
  then show ?thesis
  proof cases
    case special
    then show ?thesis
      by (auto simp: escape_char_def unescape_def NL_def split: option.splits)
  next
    case plain
    then show ?thesis
      by (auto simp: escape_char_def Let_def split: option.splits)
  next
    case hex
    have d: "?n div 16 < 16" "?n mod 16 < 16" using byte_nibbles [of c] by simp_all
    have dec: "char_of (16 * (?n div 16) + ?n mod 16) = c"
      by simp
    from hex show ?thesis
      by (simp add: escape_char_def Let_def unhex_hex_digit [OF d(1)] unhex_hex_digit [OF d(2)]
          unhex_zero dec split: option.splits)
  qed
qed

lemma scan_string_dumps:
  "scan_string (concat (map escape_char s) @ CHR 0x22 # rest) = Some (s, rest)"
proof (induction s)
  case Nil
  show ?case by simp
next
  case (Cons c s)
  then show ?case by (simp add: scan_string_escape del: scan_string.simps)
qed

lemma escape_char_no_nl: "NL \<notin> set (escape_char c)"
  using hex_digit_no_nl [OF byte_nibbles(1), of c] hex_digit_no_nl [OF byte_nibbles(2), of c]
  by (auto simp: escape_char_def Let_def NL_def)

lemmas rmatch_Lit = rmatch.simps(1)
  and rmatch_Cls = rmatch.simps(2)
  and rmatch_Seq = rmatch.simps(3)
  and rmatch_Alt = rmatch.simps(4)
  and rmatch_Star = rmatch.simps(5)
  and rmatch_Opt = rmatch.simps(6)
  and rmatch_Grp = rmatch.simps(7)
  and rmatch_Bol = rmatch.simps(8)
  and rmatch_Eol = rmatch.simps(9)
  and rmatch_NotAhead = rmatch.simps(10)

declare rmatch.simps [simp del]

lemma number_re_no_start:
  assumes "c \<noteq> CHR ''-''" and "c \<noteq> CHR ''0''" and "\<not> is_digit19 c"
  shows "match_here number_re True (c # cs) = None"
proof -
  define K2 :: "mstate \<Rightarrow> mstate option" where
    "K2 = rmatch (cat [Opt (Seq (Lit ''.'') (Plus (Cls is_digit))),
          Opt (cat [Cls (\<lambda>c. c \<in> set ''eE''), Opt (Cls (\<lambda>c. c \<in> set ''-+'')),
                    Plus (Cls is_digit)])]) Some"
  have u: "rmatch number_re Some st
      = rmatch (Opt (Lit ''-''))
          (rmatch (Alt (Lit ''0'') (Seq (Cls is_digit19) (Star (Cls is_digit)))) K2) st" for st
    unfolding number_re_def K2_def by (simp only: cat.simps rmatch_Seq_fun)
  have a: "rmatch (Alt (Lit ''0'') (Seq (Cls is_digit19) (Star (Cls is_digit)))) K2
             (True, c # cs, None) = None"
    using assms(2,3) by (simp add: rmatch_Alt rmatch_Lit rmatch_Seq rmatch_Cls)
  show ?thesis
    unfolding match_here_def u using assms(1) a
    by (simp add: rmatch_Opt rmatch_Lit)
qed

lemma number_re_no_empty: "match_here number_re True [] = None"
proof -
  have "rmatch number_re Some st
      = rmatch (Opt (Lit ''-''))
          (rmatch (Alt (Lit ''0'') (Seq (Cls is_digit19) (Star (Cls is_digit))))
            (rmatch (cat [Opt (Seq (Lit ''.'') (Plus (Cls is_digit))),
          Opt (cat [Cls (\<lambda>c. c \<in> set ''eE''), Opt (Cls (\<lambda>c. c \<in> set ''-+'')),
                    Plus (Cls is_digit)])]) Some)) st" for st
    unfolding number_re_def by (simp only: cat.simps rmatch_Seq_fun)
  then show ?thesis
    unfolding match_here_def
    by (simp add: rmatch_Opt rmatch_Lit rmatch_Alt rmatch_Seq rmatch_Cls)
qed

lemma scan_number_start:
  assumes "scan_number s = Some (t, r)"
  shows "\<exists>c cs. s = c # cs \<and> c \<in> set ''-0123456789NI''"
proof (cases s)
  case Nil
  with assms show ?thesis
    by (simp add: scan_number_def number_re_no_empty)
next
  case (Cons c cs)
  show ?thesis
  proof (rule ccontr)
    assume "\<not> ?thesis"
    with Cons have c: "c \<notin> set ''-0123456789NI''" by simp
    then have "match_here number_re True (c # cs) = None"
      by (intro number_re_no_start) (auto simp: is_digit19_def)
    with c assms Cons show False
      by (auto simp: scan_number_def split: if_splits)
  qed
qed

lemma value_start_facts:
  assumes "value_start c"
  shows "\<not> is_json_ws c" "c \<noteq> CHR '']''" "c \<noteq> CHR ''}''" "c \<noteq> CHR '',''" "c \<noteq> CHR '':''"
  using assms by (auto simp: value_start_def is_json_ws_def NL_def)

lemma str_of_int_start: "\<exists>c cs. str_of_int i = c # cs \<and> c \<in> set ''-0123456789''"
proof (cases "i < 0")
  case True
  then show ?thesis by (simp add: str_of_int_def)
next
  case False
  obtain c cs where s: "str_of_nat (nat i) = c # cs"
    using str_of_nat_nonempty [of "nat i"] by (cases "str_of_nat (nat i)") auto
  with str_of_nat_digits [of "nat i"] have "is_digit c" by simp
  with s False show ?thesis by (simp add: str_of_int_def is_digit_def)
qed

lemma value_start_number: "c \<in> set ''-0123456789NI'' \<Longrightarrow> value_start c"
  by (simp add: value_start_def)

lemma dumps_start:
  assumes "float_repr_ok fr"
  shows "\<exists>c cs. dumps fr v = c # cs \<and> value_start c"
proof (cases v)
  case PNone
  have "value_start (CHR ''n'')" by (simp add: value_start_def)
  with PNone show ?thesis by simp
next
  case (PStr s)
  have "value_start (CHR 0x22)" by (simp add: value_start_def)
  with PStr show ?thesis by (simp add: dumps_str_def)
next
  case (PInt i)
  from str_of_int_start [of i] obtain c cs where "str_of_int i = c # cs"
    and "c \<in> set ''-0123456789''" by blast
  then have "str_of_int i = c # cs" "c \<in> set ''-0123456789NI''" by auto
  with PInt value_start_number [of c] show ?thesis by simp
next
  case (PFloat f)
  have "after_value []" by (simp add: after_value_def)
  with assms have "scan_number (fr f @ []) = Some (fr f, [])"
    unfolding float_repr_ok_def by blast
  then have "scan_number (fr f) = Some (fr f, [])" by simp
  from scan_number_start [OF this] obtain c cs where "fr f = c # cs"
    and "c \<in> set ''-0123456789NI''" by blast
  with PFloat value_start_number [of c] show ?thesis by simp
next
  case (PList xs)
  have "value_start (CHR ''['')" by (simp add: value_start_def)
  with PList show ?thesis by simp
next
  case (PDict kvs)
  have "value_start (CHR ''{'')" by (simp add: value_start_def)
  with PDict show ?thesis by simp
qed

lemma dumps_elems_start:
  assumes "float_repr_ok fr" and "xs \<noteq> []"
  shows "\<exists>c cs. dumps_elems fr xs = c # cs \<and> value_start c"
proof -
  from assms(2) obtain x ys where xs: "xs = x # ys" by (cases xs) auto
  from dumps_start [OF assms(1), of x] obtain c cs where "dumps fr x = c # cs" "value_start c"
    by blast
  then show ?thesis unfolding xs by (cases ys) auto
qed

lemma dumps_items_start:
  assumes "kvs \<noteq> []"
  shows "\<exists>cs. dumps_items fr kvs = CHR 0x22 # cs"
proof -
  from assms obtain k v ys where "kvs = (k, v) # ys" by (cases kvs) auto
  then show ?thesis by (cases ys) (auto simp: dumps_str_def)
qed

lemma skip_ws_start: "\<not> is_json_ws c \<Longrightarrow> skip_ws (c # cs) = c # cs"
  by (simp add: skip_ws_def)

lemma skip_ws_space: "skip_ws (CHR '' '' # cs) = skip_ws cs"
  by (simp add: skip_ws_def is_json_ws_def)

text \<open>How the scanner of values branches on the first character.\<close>

lemma scan_value_null:
  "scan_value (Suc n) (''null'' @ rest) = Some (JNull, rest)"
  by simp

lemma scan_value_str:
  "scan_value (Suc n) (dumps_str s @ rest) = Some (JStr s, rest)"
  by (simp add: dumps_str_def scan_string_dumps del: scan_string.simps)

lemma scan_value_num:
  assumes "scan_number (t @ rest) = Some (t, rest)"
  shows "scan_value (Suc n) (t @ rest) = Some (JNum t, rest)"
proof -
  from scan_number_start [OF assms] obtain c cs where s: "t @ rest = c # cs"
    and c: "c \<in> set ''-0123456789NI''" by blast
  from c have "c \<noteq> CHR 0x22" "c \<noteq> CHR ''{''" "c \<noteq> CHR ''[''" "c \<noteq> CHR ''n''"
    "c \<noteq> CHR ''t''" "c \<noteq> CHR ''f''" by auto
  with assms show ?thesis unfolding s by simp
qed

lemma scan_value_list_empty:
  "scan_value (Suc n) (CHR ''['' # CHR '']'' # rest) = Some (JList [], rest)"
  by (simp add: skip_ws_def is_json_ws_def NL_def)

lemma scan_value_list:
  assumes "value_start c"
  shows "scan_value (Suc n) (CHR ''['' # c # cs) =
     (case scan_elems n (c # cs) of Some (xs, rest) \<Rightarrow> Some (JList xs, rest) | None \<Rightarrow> None)"
  using value_start_facts [OF assms] by (simp add: skip_ws_start)

lemma scan_value_dict_empty:
  "scan_value (Suc n) (CHR ''{'' # CHR ''}'' # rest) = Some (JDict [], rest)"
  by (simp add: skip_ws_def is_json_ws_def NL_def)

lemma scan_value_dict:
  "scan_value (Suc n) (CHR ''{'' # CHR 0x22 # cs) =
     (case scan_items n (CHR 0x22 # cs) of Some (xs, rest) \<Rightarrow> Some (JDict xs, rest) | None \<Rightarrow> None)"
  by (simp add: skip_ws_def is_json_ws_def NL_def)

lemma scan_elems_last:
  assumes "scan_value n s = Some (x, CHR '']'' # rest)"
  shows "scan_elems (Suc n) s = Some ([x], rest)"
  using assms by (simp add: skip_ws_def is_json_ws_def NL_def)

lemma scan_elems_more:
  assumes "scan_value n s = Some (x, '', '' @ c # cs)" and "value_start c"
  shows "scan_elems (Suc n) s =
     (case scan_elems n (c # cs) of Some (xs, rest) \<Rightarrow> Some (x # xs, rest) | None \<Rightarrow> None)"
  using assms(1) value_start_facts [OF assms(2)]
  by (simp add: skip_ws_def is_json_ws_def NL_def)

lemma scan_items_last:
  assumes "scan_value n (c # cs) = Some (v, CHR ''}'' # rest)" and "value_start c"
  shows "scan_items (Suc n) (dumps_str k @ '': '' @ c # cs) = Some ([(k, v)], rest)"
  using assms(1) value_start_facts [OF assms(2)]
  by (simp add: dumps_str_def scan_string_dumps skip_ws_def is_json_ws_def NL_def
      del: scan_string.simps)

lemma scan_items_more:
  assumes "scan_value n (c # cs) = Some (v, '', '' @ CHR 0x22 # rest)" and "value_start c"
  shows "scan_items (Suc n) (dumps_str k @ '': '' @ c # cs) =
     (case scan_items n (CHR 0x22 # rest) of
        Some (kvs, r) \<Rightarrow> Some ((k, v) # kvs, r) | None \<Rightarrow> None)"
  using assms(1) value_start_facts [OF assms(2)]
  by (simp add: dumps_str_def scan_string_dumps skip_ws_def is_json_ws_def NL_def
      del: scan_string.simps)

declare scan_value.simps [simp del] scan_elems.simps [simp del] scan_items.simps [simp del]

lemma after_value_delims:
  "after_value (CHR '']'' # rest)" "after_value (CHR ''}'' # rest)" "after_value (CHR '','' # rest)"
  "after_value []"
  by (simp_all add: after_value_def)

lemma dumps_length: "float_repr_ok fr \<Longrightarrow> 0 < length (dumps fr v)"
  using dumps_start [of fr v] by auto

lemma scan_dumps:
  assumes ok: "float_repr_ok fr"
  shows "\<And>n rest. length (dumps fr v) \<le> Suc n \<Longrightarrow> after_value rest \<Longrightarrow>
           scan_value (Suc n) (dumps fr v @ rest) = Some (shape fr v, rest)"
    and "\<And>n rest. xs \<noteq> [] \<Longrightarrow> length (dumps_elems fr xs) \<le> n \<Longrightarrow>
           scan_elems (Suc n) (dumps_elems fr xs @ CHR '']'' # rest) = Some (shape_elems fr xs, rest)"
    and "\<And>n rest. kvs \<noteq> [] \<Longrightarrow> length (dumps_items fr kvs) \<le> n \<Longrightarrow>
           scan_items (Suc n) (dumps_items fr kvs @ CHR ''}'' # rest) = Some (shape_items fr kvs, rest)"
  using ok
proof (induction fr v and fr xs and fr kvs rule: dumps_dumps_elems_dumps_items.induct)
  case (1 fr)
  show ?case using scan_value_null [of n rest] by simp
next
  case (2 fr s)
  show ?case using scan_value_str [of n s rest] by simp
next
  case (3 fr i)
  from scan_value_num [OF scan_number_int [OF "3.prems"(2)]] show ?case by simp
next
  case (4 fr f)
  from "4.prems"(2,3) have "scan_number (fr f @ rest) = Some (fr f, rest)"
    unfolding float_repr_ok_def by blast
  from scan_value_num [OF this] show ?case by simp
next
  case (5 fr xs)
  show ?case
  proof (cases "xs = []")
    case True
    then show ?thesis using scan_value_list_empty [of n rest] by simp
  next
    case False
    from dumps_elems_start [OF "5.prems"(3) False] obtain c cs where
      st: "dumps_elems fr xs = c # cs" "value_start c" by blast
    from "5.prems"(1) obtain m where n: "n = Suc m" and m: "length (dumps_elems fr xs) \<le> m"
      by (cases n) auto
    from "5.IH" [OF False m "5.prems"(3), of rest]
    have "scan_elems n (c # cs @ CHR '']'' # rest) = Some (shape_elems fr xs, rest)"
      by (simp add: st n)
    with scan_value_list [OF st(2), of n "cs @ CHR '']'' # rest"] show ?thesis
      by (simp add: st)
  qed
next
  case (6 fr kvs)
  show ?case
  proof (cases "kvs = []")
    case True
    then show ?thesis using scan_value_dict_empty [of n rest] by simp
  next
    case False
    from dumps_items_start [OF False] obtain cs where
      st: "dumps_items fr kvs = CHR 0x22 # cs" by blast
    from "6.prems"(1) obtain m where n: "n = Suc m" and m: "length (dumps_items fr kvs) \<le> m"
      by (cases n) auto
    from "6.IH" [OF False m "6.prems"(3), of rest]
    have "scan_items n (CHR 0x22 # cs @ CHR ''}'' # rest) = Some (shape_items fr kvs, rest)"
      by (simp add: st n)
    with scan_value_dict [of n "cs @ CHR ''}'' # rest"] show ?thesis
      by (simp add: st)
  qed
next
  case (7 fr)
  then show ?case by simp
next
  case (8 fr x)
  from dumps_length [OF "8.prems"(3), of x] "8.prems"(2)
  obtain m where n: "n = Suc m" and m: "length (dumps fr x) \<le> Suc m"
    by (cases n) auto
  from "8.IH" [OF m after_value_delims(1) "8.prems"(3), of rest]
  have "scan_value n (dumps fr x @ CHR '']'' # rest) = Some (shape fr x, CHR '']'' # rest)"
    by (simp add: n)
  from scan_elems_last [OF this] show ?case by simp
next
  case (9 fr x y ys)
  from dumps_elems_start [OF "9.prems"(3), of "y # ys"] obtain c cs where
    st: "dumps_elems fr (y # ys) = c # cs" "value_start c" by blast
  from dumps_length [OF "9.prems"(3), of x] "9.prems"(2)
  obtain m where n: "n = Suc m" and m: "length (dumps fr x) \<le> Suc m"
    and m': "length (dumps_elems fr (y # ys)) \<le> m"
    by (cases n) auto
  from "9.IH"(1) [OF m after_value_delims(3) "9.prems"(3), of "CHR '' '' # c # cs @ CHR '']'' # rest"]
  have v: "scan_value n (dumps fr x @ '', '' @ c # cs @ CHR '']'' # rest)
      = Some (shape fr x, '', '' @ c # cs @ CHR '']'' # rest)"
    by (simp add: n)
  from "9.IH"(2) [OF _ m' "9.prems"(3), of rest]
  have e: "scan_elems n (c # cs @ CHR '']'' # rest) = Some (shape_elems fr (y # ys), rest)"
    by (simp add: st n)
  from scan_elems_more [OF v st(2)] e show ?case
    by (simp add: st)
next
  case (10 fr)
  then show ?case by simp
next
  case (11 fr k v)
  from dumps_start [OF "11.prems"(3), of v] obtain c cs where
    st: "dumps fr v = c # cs" "value_start c" by blast
  from "11.prems"(2) st obtain m where n: "n = Suc m" and m: "length (dumps fr v) \<le> Suc m"
    by (cases n) (auto simp: dumps_str_def)
  from "11.IH" [OF m after_value_delims(2) "11.prems"(3), of rest]
  have "scan_value n (c # cs @ CHR ''}'' # rest) = Some (shape fr v, CHR ''}'' # rest)"
    by (simp add: n st)
  from scan_items_last [OF this st(2), of k] show ?case
    by (simp add: st)
next
  case (12 fr k v kv kvs)
  from dumps_start [OF "12.prems"(3), of v] obtain c cs where
    st: "dumps fr v = c # cs" "value_start c" by blast
  from dumps_items_start [of "kv # kvs" fr] obtain cs' where
    st': "dumps_items fr (kv # kvs) = CHR 0x22 # cs'" by auto
  from "12.prems"(2) st obtain m where n: "n = Suc m" and m: "length (dumps fr v) \<le> Suc m"
    and m': "length (dumps_items fr (kv # kvs)) \<le> m"
    by (cases n) (auto simp: dumps_str_def)
  from "12.IH"(1) [OF m after_value_delims(3) "12.prems"(3),
      of "CHR '' '' # CHR 0x22 # cs' @ CHR ''}'' # rest"]
  have v: "scan_value n (c # cs @ '', '' @ CHR 0x22 # cs' @ CHR ''}'' # rest)
      = Some (shape fr v, '', '' @ CHR 0x22 # cs' @ CHR ''}'' # rest)"
    by (simp add: n st)
  from "12.IH"(2) [OF _ m' "12.prems"(3), of rest]
  have e: "scan_items n (CHR 0x22 # cs' @ CHR ''}'' # rest) = Some (shape_items fr (kv # kvs), rest)"
    by (simp add: st' n)
  from scan_items_more [OF v st(2), of k] e show ?case
    by (simp add: st st')
qed

lemma loads_dumps:
  assumes "float_repr_ok fr"
  shows "loads (dumps fr v) = Some (shape fr v)"
proof -
  from dumps_start [OF assms, of v] obtain c cs where st: "dumps fr v = c # cs" "value_start c"
    by blast
  then have sk: "skip_ws (dumps fr v) = dumps fr v"
    using value_start_facts(1) by (simp add: skip_ws_start)
  have "scan_value (Suc (length (dumps fr v))) (dumps fr v @ []) = Some (shape fr v, [])"
    by (rule scan_dumps(1) [OF assms]) (simp_all add: after_value_delims)
  moreover have "skip_ws [] = []" by (simp add: skip_ws_def)
  ultimately show ?thesis
    by (simp add: loads_def sk)
qed

lemma str_of_int_no_nl: "NL \<notin> set (str_of_int i)"
  using str_of_nat_digits digit_facts(1) by (auto simp: str_of_int_def NL_def)

lemma dumps_str_no_nl: "NL \<notin> set (dumps_str s)"
  using escape_char_no_nl by (auto simp: dumps_str_def NL_def)

lemma dumps_no_nl:
  assumes "float_repr_ok fr"
  shows "NL \<notin> set (dumps fr v)"
    and "NL \<notin> set (dumps_elems fr xs)"
    and "NL \<notin> set (dumps_items fr kvs)"
  using assms
proof (induction fr v and fr xs and fr kvs rule: dumps_dumps_elems_dumps_items.induct)
  case (4 fr f)
  then show ?case by (simp add: float_repr_ok_def)
qed (simp_all add: str_of_int_no_nl dumps_str_no_nl, simp_all add: NL_def)

lemma fold_append_concat:
  "fold (\<lambda>x f. f @ g x) xs acc = acc @ concat (map g xs)"
  by (induction xs arbitrary: acc) simp_all

lemma export_to_jsonl_concat:
  "export_to_jsonl fr sessions = concat (map (\<lambda>s. dumps fr (jsonl_entry s) @ [NL]) sessions)"
  unfolding export_to_jsonl_def by (simp add: fold_append_concat)

lemma file_lines_line:
  "NL \<notin> set l \<Longrightarrow> file_lines (l @ NL # rest) = l # file_lines rest"
  by (induction l) auto

lemma file_lines_concat:
  "\<forall>l \<in> set ls. NL \<notin> set l \<Longrightarrow> file_lines (concat (map (\<lambda>l. l @ [NL]) ls)) = ls"
  by (induction ls) (simp_all add: file_lines_line)

lemma shape_elems_map: "shape_elems fr xs = map (shape fr) xs"
  by (induction xs) simp_all

lemma shape_jsonl_entry:
  "shape fr (jsonl_entry s) =
     JDict [(''bug_id'', JStr (project (bug_info s) @ ''_'' @ bug_id (bug_info s))),
            (''project'', JStr (project (bug_info s))),
            (''logs'', JList (map (\<lambda>e. shape fr (asdict_log e)) (log_sequence s))),
            (''timeline'', JList (map JStr (investigation_timeline s))),
            (''root_cause'', JStr (root_cause_summary s))]"
  by (simp add: jsonl_entry_def shape_elems_map comp_def)

text \<open>
  Claim C8: for every list of \<open>N\<close> sessions the exported text is \<open>N\<close> lines, one per session
  in order, each ended by a line feed and holding none inside; read back line by line with
  \<open>json.loads\<close>, each line is one record with exactly the five fields \<open>bug_id\<close>, \<open>project\<close>,
  \<open>logs\<close>, \<open>timeline\<close> and \<open>root_cause\<close> and the values that were exported; the test outcomes
  are not part of it.  The text of a float is a parameter, taken to be what the scanner of
  numbers reads whole.
\<close>

theorem jsonl_export_round_trip:
  assumes "float_repr_ok fr"
  shows "export_to_jsonl fr sessions = concat (map (\<lambda>s. dumps fr (jsonl_entry s) @ [NL]) sessions)
    \<and> file_lines (export_to_jsonl fr sessions) = map (\<lambda>s. dumps fr (jsonl_entry s)) sessions
    \<and> length (file_lines (export_to_jsonl fr sessions)) = length sessions
    \<and> read_jsonl (export_to_jsonl fr sessions) =
        map (\<lambda>s. Some (JDict
              [(''bug_id'', JStr (project (bug_info s) @ ''_'' @ bug_id (bug_info s))),
               (''project'', JStr (project (bug_info s))),
               (''logs'', JList (map (\<lambda>e. shape fr (asdict_log e)) (log_sequence s))),
               (''timeline'', JList (map JStr (investigation_timeline s))),
               (''root_cause'', JStr (root_cause_summary s))])) sessions"
proof -
  let ?lines = "map (\<lambda>s. dumps fr (jsonl_entry s)) sessions"
  have c: "export_to_jsonl fr sessions = concat (map (\<lambda>l. l @ [NL]) ?lines)"
    by (simp add: export_to_jsonl_concat comp_def)
  have "\<forall>l \<in> set ?lines. NL \<notin> set l"
    using dumps_no_nl(1) [OF assms] by auto
  from file_lines_concat [OF this] c
  have l: "file_lines (export_to_jsonl fr sessions) = ?lines" by simp
  have r: "read_jsonl (export_to_jsonl fr sessions) =
        map (\<lambda>s. Some (shape fr (jsonl_entry s))) sessions"
    unfolding read_jsonl_def l by (simp add: loads_dumps [OF assms] comp_def)
  show ?thesis
    using l r by (simp add: export_to_jsonl_concat shape_jsonl_entry)
qed

lemma example_float_repr_ok: "float_repr_ok example_float_repr"
proof -
  have "scan_number (''0.0'' @ rest) = Some (''0.0'', rest)" if a: "after_value rest" for rest
  proof -
    define K3 :: "mstate \<Rightarrow> mstate option" where
      "K3 = rmatch (Opt (cat [Cls (\<lambda>c. c \<in> set ''eE''), Opt (Cls (\<lambda>c. c \<in> set ''-+'')),
                    Plus (Cls is_digit)])) Some"
    have u: "rmatch number_re Some st
      = rmatch (Opt (Lit ''-''))
          (rmatch (Alt (Lit ''0'') (Seq (Cls is_digit19) (Star (Cls is_digit))))
            (rmatch (Opt (Seq (Lit ''.'') (Seq (Cls is_digit) (Star (Cls is_digit))))) K3)) st" for st
      unfolding number_re_def K3_def Plus_def by (simp only: cat.simps rmatch_Seq_fun)
    have k3: "K3 (b, rest, c) = Some (b, rest, c)" for b c
      unfolding K3_def using after_value_facts(3) [OF a]
      by (cases rest) (simp_all add: rmatch_Opt rmatch_Seq rmatch_Cls)
    have stop: "rest = [] \<or> \<not> is_digit (hd rest)"
      using after_value_facts(1) [OF a] .
    have star: "rmatch (Star (Cls is_digit)) K3 (b, rest, c) = Some (b, rest, c)" for b c
      by (simp add: star_cls_stop [of rest is_digit, OF stop] k3)
    have "match_here number_re True (''0.0'' @ rest) = Some (False, rest, None)"
      unfolding match_here_def u
      by (simp add: rmatch_Opt rmatch_Lit rmatch_Alt rmatch_Seq rmatch_Cls star is_digit_def NL_def)
    then show ?thesis by (simp add: scan_number_def)
  qed
  then show ?thesis
    by (simp add: float_repr_ok_def example_float_repr_def NL_def)
qed

theorem jsonl_export_round_trip_witness:
  "length (file_lines (export_to_jsonl example_float_repr [example_session, example_session])) = 2
   \<and> read_jsonl (export_to_jsonl example_float_repr [example_session]) =
       [Some (JDict
          [(''bug_id'', JStr ''Lang_1''), (''project'', JStr ''Lang''),
           (''logs'', JList [JDict
              [(''timestamp'', JStr ''2024-01-15T10:30:00''), (''level'', JStr ''ERROR''),
               (''source'', JStr ''test''), (''message'', JStr ''Test failed: org.Foo::testBar''),
               (''metadata'', JDict [(''error'', JStr (''line 1'' @ [NL] @ ''line 2'')),
                                     (''execution_time'', JNum ''0.0'')])]]),
           (''timeline'', JList [JStr ''Identified failing test: org.Foo::testBar'']),
           (''root_cause'', JStr ''Bug in Lang (#1)'')])]"
proof -
  note t = jsonl_export_round_trip [OF example_float_repr_ok]
  from t [of "[example_session, example_session]"]
  have "length (file_lines (export_to_jsonl example_float_repr [example_session, example_session]))
      = length [example_session, example_session]"
    by blast
  then have a: "length (file_lines (export_to_jsonl example_float_repr [example_session, example_session])) = 2"
    by simp
  from t [of "[example_session]"]
  have b: "read_jsonl (export_to_jsonl example_float_repr [example_session]) =
        map (\<lambda>s. Some (JDict
              [(''bug_id'', JStr (project (bug_info s) @ ''_'' @ bug_id (bug_info s))),
               (''project'', JStr (project (bug_info s))),
               (''logs'', JList (map (\<lambda>e. shape example_float_repr (asdict_log e)) (log_sequence s))),
               (''timeline'', JList (map JStr (investigation_timeline s))),
               (''root_cause'', JStr (root_cause_summary s))])) [example_session]"
    by blast
  have c: "map (\<lambda>s. Some (JDict
              [(''bug_id'', JStr (project (bug_info s) @ ''_'' @ bug_id (bug_info s))),
               (''project'', JStr (project (bug_info s))),
               (''logs'', JList (map (\<lambda>e. shape example_float_repr (asdict_log e)) (log_sequence s))),
               (''timeline'', JList (map JStr (investigation_timeline s))),
               (''root_cause'', JStr (root_cause_summary s))])) [example_session]
       = [Some (JDict
          [(''bug_id'', JStr ''Lang_1''), (''project'', JStr ''Lang''),
           (''logs'', JList [JDict
              [(''timestamp'', JStr ''2024-01-15T10:30:00''), (''level'', JStr ''ERROR''),
               (''source'', JStr ''test''), (''message'', JStr ''Test failed: org.Foo::testBar''),
               (''metadata'', JDict [(''error'', JStr (''line 1'' @ [NL] @ ''line 2'')),
                                     (''execution_time'', JNum ''0.0'')])]]),
           (''timeline'', JList [JStr ''Identified failing test: org.Foo::testBar'']),
           (''root_cause'', JStr ''Bug in Lang (#1)'')])]"
    by (simp add: example_session_def example_bug_def asdict_log_def example_float_repr_def)
  from a trans [OF b c] show ?thesis by (rule conjI)
qed

end
